theory Spec2Isabelle
  imports Complex_Main "HOL-Library.Word" "HOL-Library.Sublist"
begin

section \<open>Data: bytes and text\<close>

text \<open>
  A Python \<open>bytes\<close> value is a list of 8-bit words.  A Python \<open>str\<close> is a list of code
  points, each a natural number; Python only builds strings whose code points are at
  most \<open>0x10FFFF\<close>.  Lone surrogates (\<open>0xD800..0xDFFF\<close>) may occur in a \<open>str\<close>, but
  cannot be encoded to UTF-8.
\<close>

type_synonym byte = "8 word"
type_synonym str = "nat list"

datatype py_error =
    PtyTimeoutError string str
  | PtyError string
  | UnicodeEncodeError
  | TypeError
  | ValueError
  | OverflowError

definition is_surrogate :: "nat \<Rightarrow> bool" where
  "is_surrogate c \<longleftrightarrow> 0xD800 \<le> c \<and> c \<le> 0xDFFF"

definition is_scalar :: "nat \<Rightarrow> bool" where
  "is_scalar c \<longleftrightarrow> c \<le> 0x10FFFF \<and> \<not> is_surrogate c"

section \<open>Python's backtracking regular expressions\<close>

text \<open>
  The two patterns of \<open>AGTerm.py\<close> use literals, character classes, concatenation,
  ordered alternation, and greedy and lazy repetition.  \<open>matches p xs\<close> lists, in the
  order in which the backtracking matcher of \<open>re\<close> tries them, the remainders of \<open>xs\<close>
  after each way of matching \<open>p\<close> at the start of \<open>xs\<close>: an alternation tries its left
  branch first, a greedy star tries one more iteration before stopping, a lazy star
  stops before trying one more iteration.  The match \<open>re\<close> reports is the first of the
  list.  An iteration of a star that consumes nothing is not repeated.
\<close>

datatype 'a regex =
    Lit 'a
  | Cls "'a \<Rightarrow> bool"
  | Seq "'a regex" "'a regex"
  | Alt "'a regex" "'a regex"
  | Star "'a regex"
  | LazyStar "'a regex"

function matches :: "'a regex \<Rightarrow> 'a list \<Rightarrow> 'a list list" where
  "matches (Lit a) xs = (case xs of [] \<Rightarrow> [] | x # r \<Rightarrow> if x = a then [r] else [])"
| "matches (Cls P) xs = (case xs of [] \<Rightarrow> [] | x # r \<Rightarrow> if P x then [r] else [])"
| "matches (Seq p q) xs = concat (map (matches q) (matches p xs))"
| "matches (Alt p q) xs = matches p xs @ matches q xs"
| "matches (Star p) xs =
     concat (map (\<lambda>r. if length r < length xs then matches (Star p) r else [])
                 (matches p xs)) @ [xs]"
| "matches (LazyStar p) xs =
     xs # concat (map (\<lambda>r. if length r < length xs then matches (LazyStar p) r else [])
                      (matches p xs))"
  by pat_completeness auto
termination
  by (relation "measures [\<lambda>(p, xs). size p, \<lambda>(p, xs). length xs]") auto

text \<open>
  \<open>re.sub(p, "", xs)\<close>: scan from the left; where \<open>p\<close> matches, drop the matched part
  and go on after it; elsewhere keep the character and move one position on.  With
  the empty replacement an empty match leaves the text as it is.
\<close>

function re_sub_empty :: "'a regex \<Rightarrow> 'a list \<Rightarrow> 'a list" where
  "re_sub_empty p [] = []"
| "re_sub_empty p (x # xs) =
     (case matches p (x # xs) of
        [] \<Rightarrow> x # re_sub_empty p xs
      | r # _ \<Rightarrow> if length r < length (x # xs) then re_sub_empty p r
                 else x # re_sub_empty p xs)"
  by pat_completeness auto
termination
  by (relation "measure (\<lambda>(p, xs). length xs)") auto

section \<open>The sanitizer\<close>

definition range_cls :: "nat \<Rightarrow> nat \<Rightarrow> byte \<Rightarrow> bool" where
  "range_cls lo hi b \<longleftrightarrow> lo \<le> unat b \<and> unat b \<le> hi"

text \<open>
  \<^verbatim>\<open>ANSI_RE = rb"\x1b(?:[@-Z\\-_]|\[[0-?]*[ -/]*[@-~]|\][0-9]*;[\s\S]*?(?:\x07|\x1b\\))"\<close>

  The first class is \<open>@\<close> to \<open>Z\<close> (\<open>0x40..0x5A\<close>) together with backslash to underscore
  (\<open>0x5C..0x5F\<close>).
\<close>

definition ANSI_RE :: "byte regex" where
  "ANSI_RE =
     Seq (Lit 0x1B)
       (Alt (Cls (\<lambda>b. range_cls 0x40 0x5A b \<or> range_cls 0x5C 0x5F b))
       (Alt (Seq (Lit 0x5B) (Seq (Star (Cls (range_cls 0x30 0x3F)))
              (Seq (Star (Cls (range_cls 0x20 0x2F))) (Cls (range_cls 0x40 0x7E)))))
            (Seq (Lit 0x5D) (Seq (Star (Cls (range_cls 0x30 0x39)))
              (Seq (Lit 0x3B) (Seq (LazyStar (Cls (\<lambda>b. True)))
                 (Alt (Lit 0x07) (Seq (Lit 0x1B) (Lit 0x5C)))))))))"

text \<open>
  \<open>bytes.decode("utf-8", errors="replace")\<close>, as CPython's decoder does it: a
  well-formed sequence gives its code point; an invalid start byte, or a lead byte
  with the valid continuation bytes that follow it up to the first invalid one, is
  replaced by one \<open>U+FFFD\<close> and decoding resumes at the offending byte; a sequence cut
  off by the end of the input is replaced by one \<open>U+FFFD\<close>.
\<close>

definition is_cont :: "byte \<Rightarrow> bool" where
  "is_cont b \<longleftrightarrow> 0x80 \<le> unat b \<and> unat b < 0xC0"

fun utf8_decode_replace :: "byte list \<Rightarrow> str" where
  "utf8_decode_replace [] = []"
| "utf8_decode_replace (b # bs) =
     (if unat b < 0x80 then unat b # utf8_decode_replace bs
      else if unat b < 0xC2 then 0xFFFD # utf8_decode_replace bs
      else if unat b < 0xE0 then
        (case bs of
           [] \<Rightarrow> [0xFFFD]
         | b2 # r2 \<Rightarrow>
             if \<not> is_cont b2 then 0xFFFD # utf8_decode_replace bs
             else ((unat b - 0xC0) * 64 + (unat b2 - 0x80)) # utf8_decode_replace r2)
      else if unat b < 0xF0 then
        (case bs of
           [] \<Rightarrow> [0xFFFD]
         | b2 # r2 \<Rightarrow>
             if \<not> is_cont b2 \<or> (if unat b2 < 0xA0 then unat b = 0xE0 else unat b = 0xED)
             then 0xFFFD # utf8_decode_replace bs
             else (case r2 of
                     [] \<Rightarrow> [0xFFFD]
                   | b3 # r3 \<Rightarrow>
                       if \<not> is_cont b3 then 0xFFFD # utf8_decode_replace r2
                       else ((unat b - 0xE0) * 4096 + (unat b2 - 0x80) * 64 + (unat b3 - 0x80))
                            # utf8_decode_replace r3))
      else if unat b < 0xF5 then
        (case bs of
           [] \<Rightarrow> [0xFFFD]
         | b2 # r2 \<Rightarrow>
             if \<not> is_cont b2 \<or> (if unat b2 < 0x90 then unat b = 0xF0 else unat b = 0xF4)
             then 0xFFFD # utf8_decode_replace bs
             else (case r2 of
                     [] \<Rightarrow> [0xFFFD]
                   | b3 # r3 \<Rightarrow>
                       if \<not> is_cont b3 then 0xFFFD # utf8_decode_replace r2
                       else (case r3 of
                               [] \<Rightarrow> [0xFFFD]
                             | b4 # r4 \<Rightarrow>
                                 if \<not> is_cont b4 then 0xFFFD # utf8_decode_replace r3
                                 else ((unat b - 0xF0) * 262144 + (unat b2 - 0x80) * 4096
                                       + (unat b3 - 0x80) * 64 + (unat b4 - 0x80))
                                      # utf8_decode_replace r4)))
      else 0xFFFD # utf8_decode_replace bs)"

text \<open>
  \<open>str.encode()\<close> (UTF-8, strict): a surrogate raises \<open>UnicodeEncodeError\<close>.
\<close>

definition utf8_encode_char :: "nat \<Rightarrow> py_error + byte list" where
  "utf8_encode_char c =
     (if c < 0x80 then Inr [of_nat c]
      else if c < 0x800 then Inr [of_nat (0xC0 + c div 64), of_nat (0x80 + c mod 64)]
      else if is_surrogate c \<or> 0x10FFFF < c then Inl UnicodeEncodeError
      else if c < 0x10000 then
        Inr [of_nat (0xE0 + c div 4096), of_nat (0x80 + c div 64 mod 64),
             of_nat (0x80 + c mod 64)]
      else
        Inr [of_nat (0xF0 + c div 262144), of_nat (0x80 + c div 4096 mod 64),
             of_nat (0x80 + c div 64 mod 64), of_nat (0x80 + c mod 64)])"

fun utf8_encode :: "str \<Rightarrow> py_error + byte list" where
  "utf8_encode [] = Inr []"
| "utf8_encode (c # cs) =
     (case utf8_encode_char c of
        Inl e \<Rightarrow> Inl e
      | Inr bs \<Rightarrow> (case utf8_encode cs of Inl e \<Rightarrow> Inl e | Inr r \<Rightarrow> Inr (bs @ r)))"

text \<open>
  \<open>s.replace(old, new)\<close>: the occurrences of \<open>old\<close> are found from the left and do not
  overlap.  For the empty \<open>old\<close> Python puts \<open>new\<close> before every character and at the
  end.
\<close>

function str_replace :: "'a list \<Rightarrow> 'a list \<Rightarrow> 'a list \<Rightarrow> 'a list" where
  "str_replace old new [] = (if old = [] then new else [])"
| "str_replace old new (c # cs) =
     (if old = [] then new @ c # str_replace old new cs
      else if prefix old (c # cs) then new @ str_replace old new (drop (length old) (c # cs))
      else c # str_replace old new cs)"
  by pat_completeness auto
termination
  by (relation "measure (\<lambda>(old, new, s). length s)") (auto simp: neq_Nil_conv)

text \<open>
  \<^verbatim>\<open>re.sub(r"133;[A-Z];.*?\x07", "", text)\<close>: in a \<open>str\<close> pattern the dot matches every
  character but the linefeed.
\<close>

definition OSC133_RE :: "nat regex" where
  "OSC133_RE =
     Seq (Lit 0x31) (Seq (Lit 0x33) (Seq (Lit 0x33) (Seq (Lit 0x3B)
       (Seq (Cls (\<lambda>c. 0x41 \<le> c \<and> c \<le> 0x5A)) (Seq (Lit 0x3B)
         (Seq (LazyStar (Cls (\<lambda>c. c \<noteq> 0x0A))) (Lit 0x07)))))))"

definition keep_char :: "nat \<Rightarrow> bool" where
  "keep_char ch \<longleftrightarrow> ch \<ge> 0x20 \<or> ch \<in> set [0x0A, 0x09]"

definition decoded :: "byte list \<Rightarrow> str" where
  "decoded data = utf8_decode_replace (re_sub_empty ANSI_RE data)"

definition normalize_newlines :: "str \<Rightarrow> str" where
  "normalize_newlines text = str_replace [0x0D] [0x0A] (str_replace [0x0D, 0x0A] [0x0A] text)"

definition sanitize :: "byte list \<Rightarrow> str" where
  "sanitize data =
     (if data = [] then []
      else filter keep_char (re_sub_empty OSC133_RE (normalize_newlines (decoded data))))"

section \<open>The session\<close>

text \<open>
  The fields of an \<open>AGTerm\<close> object that the operations below read or write.
  \<open>proc\<close> is the \<open>Popen\<close> handle with what \<open>poll()\<close> would report for it, and
  \<open>pty_input\<close> collects the bytes handed to \<open>os.write\<close> on the master descriptor:
  the input side of the session.
\<close>

datatype proc_state = Live | Exited

record session =
  max_history :: int
  markers :: "str list"
  master_fd :: "int option"
  proc :: "proc_state option"
  history :: "byte list"
  buffer :: "byte list"
  running :: bool
  pty_input :: "byte list"

text \<open>The slice \<open>xs[start:]\<close> of Python, for every integer \<open>start\<close>.\<close>

definition py_slice_from :: "int \<Rightarrow> 'a list \<Rightarrow> 'a list" where
  "py_slice_from start xs =
     (let n = int (length xs);
          i = (if start < 0 then max (start + n) 0 else min start n)
      in drop (nat i) xs)"

text \<open>
  \<open>ready_markers or [...]\<close> takes the defaults for \<open>None\<close> and for the empty list;
  \<open>start()\<close> stores the descriptor that \<open>pty.openpty()\<close> returned, the new process and
  the running flag.
\<close>

definition default_markers :: "str list" where
  "default_markers =
     [[0x24, 0x20], [0x23, 0x20],
      [0x70, 0x77, 0x6E, 0x64, 0x62, 0x67, 0x3E, 0x20],
      [0x28, 0x67, 0x64, 0x62, 0x29, 0x20]]"

definition AGTerm_init :: "int \<Rightarrow> str list option \<Rightarrow> int \<Rightarrow> session" where
  "AGTerm_init max_history_bytes ready_markers fd =
     \<lparr> max_history = max_history_bytes,
       markers = (case ready_markers of
                    None \<Rightarrow> default_markers
                  | Some ms \<Rightarrow> if ms = [] then default_markers else ms),
       master_fd = Some fd,
       proc = Some Live,
       history = [],
       buffer = [],
       running = True,
       pty_input = [] \<rparr>"

subsection \<open>The reader loop\<close>

text \<open>
  One pass through the body of \<open>_reader_loop\<close>: \<open>select\<close> reports nothing to read, or
  \<open>os.read\<close> returns a chunk (the empty chunk is the end of the stream), or one of the
  two raises.  A loop that has left \<open>while self._running\<close> does nothing more.
\<close>

datatype read_result = NotReady | Data "byte list" | IOError

definition reader_iteration :: "read_result \<Rightarrow> session \<Rightarrow> session" where
  "reader_iteration r s =
     (if \<not> running s then s
      else case r of
        NotReady \<Rightarrow> s
      | IOError \<Rightarrow> s\<lparr>running := False\<rparr>
      | Data chunk \<Rightarrow>
          if chunk = [] then s\<lparr>running := False\<rparr>
          else
            let h = history s @ chunk
            in s\<lparr>buffer := buffer s @ chunk,
                 history := (if int (length h) > max_history s
                             then py_slice_from (- max_history s) h else h)\<rparr>)"

definition reader_loop :: "read_result list \<Rightarrow> session \<Rightarrow> session" where
  "reader_loop rs s = fold reader_iteration rs s"

subsection \<open>Writing\<close>

definition truthy_fd :: "int option \<Rightarrow> bool" where
  "truthy_fd fd \<longleftrightarrow> (case fd of None \<Rightarrow> False | Some n \<Rightarrow> n \<noteq> 0)"

definition write_raw :: "byte list \<Rightarrow> session \<Rightarrow> session" where
  "write_raw data s =
     (if truthy_fd (master_fd s) then s\<lparr>pty_input := pty_input s @ data\<rparr> else s)"

text \<open>
  \<open>str.rstrip()\<close> without an argument removes the trailing characters that
  \<open>str.isspace\<close> accepts; the table is CPython's.  \<open>write_text\<close> is the method
  \<open>AGTerm.write\<close>.
\<close>

definition is_space :: "nat \<Rightarrow> bool" where
  "is_space c \<longleftrightarrow>
     (0x09 \<le> c \<and> c \<le> 0x0D) \<or> (0x1C \<le> c \<and> c \<le> 0x20) \<or> c = 0x85 \<or> c = 0xA0
     \<or> c = 0x1680 \<or> (0x2000 \<le> c \<and> c \<le> 0x200A) \<or> c = 0x2028 \<or> c = 0x2029
     \<or> c = 0x202F \<or> c = 0x205F \<or> c = 0x3000"

definition rstrip :: "str \<Rightarrow> str" where
  "rstrip text = rev (dropWhile is_space (rev text))"

definition write_text :: "str \<Rightarrow> session \<Rightarrow> py_error + session" where
  "write_text text s =
     (case utf8_encode (rstrip text @ [0x0A]) of
        Inl e \<Rightarrow> Inl e
      | Inr data \<Rightarrow> Inr (write_raw data s))"

text \<open>
  \<open>str.upper()\<close> maps every character by the full uppercase mapping of Unicode,
  whatever surrounds it; one character may become several.  The table is written
  out for the code points below \<open>0x100\<close>; \<open>ucd_upper\<close> stands for the rest of it.
\<close>

definition latin1_upper :: "nat \<Rightarrow> str" where
  "latin1_upper c =
     (if 0x61 \<le> c \<and> c \<le> 0x7A then [c - 0x20]
      else if c = 0xB5 then [0x39C]
      else if c = 0xDF then [0x53, 0x53]
      else if (0xE0 \<le> c \<and> c \<le> 0xF6) \<or> (0xF8 \<le> c \<and> c \<le> 0xFE) then [c - 0x20]
      else if c = 0xFF then [0x178]
      else [c])"

definition py_upper :: "(nat \<Rightarrow> str) \<Rightarrow> str \<Rightarrow> str" where
  "py_upper ucd_upper s =
     concat (map (\<lambda>c. if c < 0x100 then latin1_upper c else ucd_upper c) s)"

text \<open>The order of Python on strings: lexicographic, by code point.\<close>

fun str_le :: "str \<Rightarrow> str \<Rightarrow> bool" where
  "str_le [] ys = True"
| "str_le (x # xs) [] = False"
| "str_le (x # xs) (y # ys) = (x < y \<or> (x = y \<and> str_le xs ys))"

text \<open>
  \<open>ord\<close> raises \<open>TypeError\<close> on a string that is not one character long, and
  \<open>bytes([v])\<close> raises \<open>ValueError\<close> unless \<open>0 \<le> v < 256\<close>.
\<close>

definition send_control :: "(nat \<Rightarrow> str) \<Rightarrow> str \<Rightarrow> session \<Rightarrow> py_error + session" where
  "send_control ucd_upper char s =
     (let char = py_upper ucd_upper char
      in if str_le [0x41] char \<and> str_le char [0x5A] then
           (case char of
              [c] \<Rightarrow>
                (let v = int c - 0x41 + 1
                 in if 0 \<le> v \<and> v < 256 then Inr (write_raw [of_int v] s)
                    else Inl ValueError)
            | _ \<Rightarrow> Inl TypeError)
         else Inr s)"

subsection \<open>Waiting for a marker\<close>

definition is_alive :: "session \<Rightarrow> bool" where
  "is_alive s \<longleftrightarrow> running s \<and> (case proc s of None \<Rightarrow> False | Some p \<Rightarrow> p = Live)"

text \<open>\<open>m in text\<close> on strings: \<open>m\<close> occurs in \<open>text\<close> as a contiguous run.\<close>

fun contains :: "str \<Rightarrow> str \<Rightarrow> bool" where
  "contains m [] = (m = [])"
| "contains m (c # cs) = (prefix m (c # cs) \<or> contains m cs)"

text \<open>
  \<open>PtyTimeoutError.__init__\<close> renders \<open>repr(last_output[-150:])\<close> into its text; the
  error value keeps the message and that slice.
\<close>

definition PtyTimeoutError_init :: "string \<Rightarrow> str \<Rightarrow> py_error" where
  "PtyTimeoutError_init message last_output =
     PtyTimeoutError message (py_slice_from (- 150) last_output)"

text \<open>
  What the rest of the system does while a caller sits in \<open>self._cond.wait\<close>: passes
  of the reader loop, and the child process exiting.
\<close>

datatype env_event = Reader read_result | ChildExit

fun apply_event :: "env_event \<Rightarrow> session \<Rightarrow> session" where
  "apply_event (Reader r) s = reader_iteration r s"
| "apply_event ChildExit s = s\<lparr>proc := map_option (\<lambda>_. Exited) (proc s)\<rparr>"

definition apply_wake :: "env_event list \<Rightarrow> session \<Rightarrow> session" where
  "apply_wake w s = fold apply_event w s"

text \<open>
  \<open>timeout_ms / 1000.0\<close> converts the integer to a double, rounding to the nearest;
  the conversion raises \<open>OverflowError\<close> when the rounded value lies beyond the largest
  double, that is from \<open>2 ^ 1024 - 2 ^ 970\<close> on in absolute value.
\<close>

definition float_convertible :: "int \<Rightarrow> bool" where
  "float_convertible n \<longleftrightarrow> \<bar>n\<bar> < 2 ^ 1024 - 2 ^ 970"

text \<open>
  The loop of \<open>read_until_ready\<close>.  \<open>clock (Suc n)\<close> is what \<open>time.monotonic()\<close> returns
  in the pass that follows \<open>n\<close> waits, and \<open>wakes\<close> lists, wait by wait, what happened
  before the waiter ran again (nothing at all when the wait just ran out of time).
  \<open>wait_max\<close> is the largest timeout that \<open>Condition.wait\<close> accepts on the platform
  (close to \<open>threading.TIMEOUT_MAX\<close>, some 9223372036 seconds); with a larger one
  \<open>self._cond.wait(timeout=remaining)\<close> raises \<open>OverflowError\<close>.
  The result carries the returned text or the error raised, the session and the
  number of waits; it is \<open>None\<close> when the caller is still waiting after all of
  \<open>wakes\<close>.  Times are real numbers.
\<close>

type_synonym read_outcome = "(py_error + str) \<times> session \<times> nat"

fun wait_loop ::
  "real \<Rightarrow> real \<Rightarrow> (nat \<Rightarrow> real) \<Rightarrow> env_event list list \<Rightarrow> session \<Rightarrow> nat
     \<Rightarrow> read_outcome option" where
  "wait_loop wait_max deadline clock wakes s n =
     (let current_text = sanitize (buffer s)
      in case find (\<lambda>m. contains m current_text) (markers s) of
           Some m \<Rightarrow> Some (Inr current_text, s\<lparr>buffer := []\<rparr>, n)
         | None \<Rightarrow>
             (let remaining = deadline - clock (Suc n)
              in if remaining \<le> 0 then
                   Some (Inl (PtyTimeoutError_init ''Timeout'' current_text), s, n)
                 else if \<not> is_alive s then Some (Inl (PtyError ''Subprocess died''), s, n)
                 else if remaining > wait_max then Some (Inl OverflowError, s, n)
                 else (case wakes of
                         [] \<Rightarrow> None
                       | w # rest \<Rightarrow>
                           wait_loop wait_max deadline clock rest (apply_wake w s) (Suc n))))"

text \<open>
  \<open>read_until_ready\<close> reads the clock and computes the deadline before it enters the
  loop; when the division raises, nothing else has happened.
\<close>

definition read_until_ready ::
  "real \<Rightarrow> int \<Rightarrow> (nat \<Rightarrow> real) \<Rightarrow> env_event list list \<Rightarrow> session \<Rightarrow> read_outcome option" where
  "read_until_ready wait_max timeout_ms clock wakes s =
     (if \<not> float_convertible timeout_ms then Some (Inl OverflowError, s, 0)
      else wait_loop wait_max (clock 0 + real_of_int timeout_ms / 1000) clock wakes s 0)"

subsection \<open>Closing\<close>

text \<open>
  \<open>close()\<close> clears the flag, kills the process group, and closes and forgets the
  master descriptor when it is truthy.
\<close>

definition close :: "session \<Rightarrow> session" where
  "close s =
     s\<lparr>running := False,
       proc := map_option (\<lambda>_. Exited) (proc s),
       master_fd := (if truthy_fd (master_fd s) then None else master_fd s)\<rparr>"

section \<open>Notions used in the statements\<close>

text \<open>
  The control characters of Unicode (general category \<open>Cc\<close>): \<open>U+0000..U+001F\<close> and
  \<open>U+007F..U+009F\<close>.
\<close>

definition unicode_control :: "nat \<Rightarrow> bool" where
  "unicode_control c \<longleftrightarrow> c < 0x20 \<or> (0x7F \<le> c \<and> c \<le> 0x9F)"

text \<open>No configured marker occurs in the sanitized buffer.\<close>

definition no_marker :: "session \<Rightarrow> bool" where
  "no_marker s \<longleftrightarrow> find (\<lambda>m. contains m (sanitize (buffer s))) (markers s) = None"

text \<open>
  The session after the environment has acted during the first \<open>k\<close> waits of a call,
  the call itself having changed nothing.
\<close>

definition state_after :: "env_event list list \<Rightarrow> nat \<Rightarrow> session \<Rightarrow> session" where
  "state_after wakes k s = fold apply_wake (take k wakes) s"

text \<open>
  A call that started with \<open>n0\<close> waits behind it waits \<open>k\<close> more times and then finds
  its deadline passed: in each of the first \<open>k\<close> passes no marker is there, the clock is
  before the deadline, the session is alive and the remaining time is one that
  \<open>Condition.wait\<close> accepts, and in the pass after them no marker is there and the
  clock has reached the deadline.
\<close>

definition waits_then_times_out ::
  "real \<Rightarrow> real \<Rightarrow> (nat \<Rightarrow> real) \<Rightarrow> env_event list list \<Rightarrow> session \<Rightarrow> nat \<Rightarrow> nat
     \<Rightarrow> bool" where
  "waits_then_times_out wait_max d clock wakes s n0 k \<longleftrightarrow>
     k \<le> length wakes
     \<and> (\<forall>j<k. no_marker (state_after wakes j s) \<and> clock (Suc (n0 + j)) < d
              \<and> is_alive (state_after wakes j s)
              \<and> d - clock (Suc (n0 + j)) \<le> wait_max)
     \<and> no_marker (state_after wakes k s) \<and> d \<le> clock (Suc (n0 + k))"

text \<open>
  A clock whose consecutive readings lie \<open>step\<close> seconds apart, starting at zero.
\<close>

definition steady_clock :: "real \<Rightarrow> nat \<Rightarrow> real" where
  "steady_clock step n = real n * step"

text \<open>
  Line endings as the specification words them, in one pass from the left: a carriage
  return followed by a linefeed becomes one linefeed, a carriage return alone becomes
  one linefeed, every other character stays.
\<close>

fun line_endings_to_lf :: "str \<Rightarrow> str" where
  "line_endings_to_lf [] = []"
| "line_endings_to_lf [c] = [if c = 0x0D then 0x0A else c]"
| "line_endings_to_lf (c # d # cs) =
     (if c = 0x0D \<and> d = 0x0A then 0x0A # line_endings_to_lf cs
      else if c = 0x0D then 0x0A # line_endings_to_lf (d # cs)
      else c # line_endings_to_lf (d # cs))"

text \<open>
  The line endings of a text: the pairs of carriage return and linefeed, the carriage
  returns not followed by a linefeed, and the linefeeds not preceded by a carriage
  return, each counted once.
\<close>

fun count_line_endings :: "str \<Rightarrow> nat" where
  "count_line_endings [] = 0"
| "count_line_endings [c] = (if c = 0x0D \<or> c = 0x0A then 1 else 0)"
| "count_line_endings (c # d # cs) =
     (if c = 0x0D \<and> d = 0x0A then 1 + count_line_endings cs
      else if c = 0x0D \<or> c = 0x0A then 1 + count_line_endings (d # cs)
      else count_line_endings (d # cs))"

text \<open>
  Two properties of a pattern read off its syntax: no match of it can consume the
  character \<open>a\<close>; every match of it consumes the character \<open>a\<close>.
\<close>

fun avoids :: "'a \<Rightarrow> 'a regex \<Rightarrow> bool" where
  "avoids a (Lit b) = (b \<noteq> a)"
| "avoids a (Cls P) = (\<not> P a)"
| "avoids a (Seq p q) = (avoids a p \<and> avoids a q)"
| "avoids a (Alt p q) = (avoids a p \<and> avoids a q)"
| "avoids a (Star p) = avoids a p"
| "avoids a (LazyStar p) = avoids a p"

fun needs :: "'a \<Rightarrow> 'a regex \<Rightarrow> bool" where
  "needs a (Lit b) = (b = a)"
| "needs a (Cls P) = False"
| "needs a (Seq p q) = (needs a p \<or> needs a q)"
| "needs a (Alt p q) = (needs a p \<and> needs a q)"
| "needs a (Star p) = False"
| "needs a (LazyStar p) = False"

section \<open>Evaluation and basic facts\<close>

lemmas sanitize_eval = sanitize_def decoded_def normalize_newlines_def ANSI_RE_def
  OSC133_RE_def range_cls_def keep_char_def is_cont_def

lemma contains_iff_sublist: "contains m t \<longleftrightarrow> sublist m t"
  by (induction t) (auto simp: sublist_Cons_right)

lemma utf8_encode_append:
  "utf8_encode a = Inr x \<Longrightarrow> utf8_encode b = Inr y \<Longrightarrow> utf8_encode (a @ b) = Inr (x @ y)"
  by (induction a arbitrary: x) (auto split: sum.splits)



section \<open>The sanitizer and escape sequences\<close>

text \<open>
  C1.  An OSC sequence is to be removed with its payload, and an OSC sequence that
  lacks its terminator likewise.  The code does neither: the closing bracket lies in
  the range backslash to underscore of the first class of \<open>ANSI_RE\<close>, so \<open>ESC ]\<close> is
  matched as a two-byte escape before the OSC branch is tried.  On
  \<^verbatim>\<open>b"\x1b]0;t\x07A"\<close> the result is \<^verbatim>\<open>"0;tA"\<close> and not \<^verbatim>\<open>"A"\<close>; on the unterminated
  \<^verbatim>\<open>b"\x1b]0;t"\<close> it is \<^verbatim>\<open>"0;t"\<close> and not the empty text.
\<close>

theorem sanitize_keeps_osc_payload:
  "sanitize [0x1B, 0x5D, 0x30, 0x3B, 0x74, 0x07, 0x41] = [0x30, 0x3B, 0x74, 0x41]
   \<and> sanitize [0x1B, 0x5D, 0x30, 0x3B, 0x74] = [0x30, 0x3B, 0x74]
   \<and> matches ANSI_RE [0x1B, 0x5D, 0x30, 0x3B, 0x74, 0x07, 0x41]
       = [[0x30, 0x3B, 0x74, 0x07, 0x41], [0x41]]"
  by (simp add: sanitize_eval)

text \<open>
  C5 as stated: the output of \<open>sanitize\<close> holds no ESC and no control character but
  linefeed and tab.  DEL is a control character and passes the last filter, which
  tests \<open>ch >= " "\<close>.
\<close>

theorem sanitize_keeps_del:
  "0x7F \<in> set (sanitize [0x7F]) \<and> unicode_control 0x7F \<and> (0x7F :: nat) \<noteq> 0x0A
   \<and> (0x7F :: nat) \<noteq> 0x09"
  by (simp add: sanitize_eval unicode_control_def)

text \<open>
  C5, amended: for every input the output of \<open>sanitize\<close> holds no ESC, and no
  character below \<open>U+0020\<close> other than linefeed and tab.
\<close>

theorem sanitize_no_esc_no_c0:
  "\<forall>c\<in>set (sanitize data). c \<noteq> 0x1B \<and> (c < 0x20 \<longrightarrow> c = 0x0A \<or> c = 0x09)"
  by (auto simp: sanitize_def keep_char_def)

theorem sanitize_no_esc_no_c0_witness:
  "sanitize [0x1B, 0x5B, 0x6D, 0x07, 0x41, 0x0D, 0x09] = [0x41, 0x0A, 0x09]
   \<and> (0x0A :: nat) \<in> set (sanitize [0x1B, 0x5B, 0x6D, 0x07, 0x41, 0x0D, 0x09])
   \<and> (0x0A :: nat) \<noteq> 0x1B \<and> (0x0A :: nat) < 0x20"
  using sanitize_no_esc_no_c0 [of "[0x1B, 0x5B, 0x6D, 0x07, 0x41, 0x0D, 0x09]"]
  by (simp add: sanitize_eval)

section \<open>History\<close>

text \<open>
  C4.  After each pass of the reader loop the history is to hold at most
  \<open>max_history\<close> bytes, for every cap from zero on.  With the cap zero the slice
  \<open>self.history[-0:]\<close> is the whole history: after the first chunk the history holds
  one byte.
\<close>

theorem history_exceeds_zero_cap:
  "history (reader_iteration (Data [0x61]) (AGTerm_init 0 None 3)) = [0x61]
   \<and> max_history (reader_iteration (Data [0x61]) (AGTerm_init 0 None 3)) = 0"
  by (simp add: reader_iteration_def AGTerm_init_def py_slice_from_def Let_def)

section \<open>Writing\<close>




text \<open>
  Outside these conditions nothing is sent: the error of \<open>encode\<close> is the error of
  \<open>write\<close>, and without the descriptor the session stays as it is.
\<close>

lemma utf8_encode_append_error:
  "utf8_encode a = Inl e \<Longrightarrow> utf8_encode (a @ b) = Inl e"
  by (induction a) (auto split: sum.splits)

lemma write_text_unencodable:
  "utf8_encode (rstrip t) = Inl e \<Longrightarrow> write_text t s = Inl e"
  by (simp add: write_text_def utf8_encode_append_error)

lemma write_text_without_descriptor:
  assumes "\<not> truthy_fd (master_fd s)" and "utf8_encode (rstrip t) = Inr bs"
  shows "write_text t s = Inr s"
proof -
  have "utf8_encode [0x0A] = Inr [0x0A]"
    by (simp add: utf8_encode_char_def)
  with assms(2) have "utf8_encode (rstrip t @ [0x0A]) = Inr (bs @ [0x0A])"
    by (rule utf8_encode_append)
  with assms(1) show ?thesis
    by (simp add: write_text_def write_raw_def)
qed

text \<open>
  C10.  For a one-character argument \<open>send_control\<close> is to send the control byte of
  a letter and to do nothing for any other character.  The uppercase form of
  \<open>U+00DF\<close> is the two characters \<open>SS\<close>, which lie between \<open>"A"\<close> and \<open>"Z"\<close> in the
  order of strings; \<open>ord\<close> then raises \<open>TypeError\<close>.
\<close>

theorem send_control_sharp_s_raises:
  "send_control ucd_upper [0xDF] s = Inl TypeError"
  by (simp add: send_control_def py_upper_def latin1_upper_def)

text \<open>
  On an ASCII character \<open>send_control\<close> does what is expected of it: a letter of
  either case sends its position in the alphabet, any other character sends nothing.
\<close>

lemma send_control_letter:
  assumes "py_upper ucd_upper char = [u]" and "0x41 \<le> u" and "u \<le> 0x5A"
  shows "send_control ucd_upper char s = Inr (write_raw [of_nat (u - 0x40)] s)"
proof -
  from assms(2) have "int u - 0x41 + 1 = int (u - 0x40)"
    by linarith
  moreover have "(of_int (int (u - 0x40)) :: byte) = of_nat (u - 0x40)"
    by simp
  moreover from assms(2,3) have "u = 0x41 \<or> 0x41 < u" "u = 0x5A \<or> u < 0x5A"
    by linarith+
  ultimately show ?thesis
    using assms by (simp add: send_control_def Let_def del: of_int_of_nat_eq)
qed

lemma send_control_ascii:
  assumes "c < 0x80"
  shows "send_control ucd_upper [c] s =
           (if 0x41 \<le> c \<and> c \<le> 0x5A then Inr (write_raw [of_nat (c - 0x40)] s)
            else if 0x61 \<le> c \<and> c \<le> 0x7A then Inr (write_raw [of_nat (c - 0x60)] s)
            else Inr s)"
proof -
  consider "0x41 \<le> c" "c \<le> 0x5A" | "0x61 \<le> c" "c \<le> 0x7A"
    | "c < 0x41" | "0x5A < c" "c < 0x61" | "0x7A < c"
    by linarith
  then show ?thesis
  proof cases
    case 1
    then have "py_upper ucd_upper [c] = [c]"
      by (simp add: py_upper_def latin1_upper_def)
    from send_control_letter [OF this 1] 1 show ?thesis
      by simp
  next
    case 2
    then have "py_upper ucd_upper [c] = [c - 0x20]" "0x41 \<le> c - 0x20" "c - 0x20 \<le> 0x5A"
      by (simp_all add: py_upper_def latin1_upper_def)
    from send_control_letter [OF this] 2 show ?thesis
      by simp
  next
    case 3
    with assms show ?thesis
      by (simp add: send_control_def py_upper_def latin1_upper_def)
  next
    case 4
    with assms show ?thesis
      by (simp add: send_control_def py_upper_def latin1_upper_def)
  next
    case 5
    with assms show ?thesis
      by (simp add: send_control_def py_upper_def latin1_upper_def)
  qed
qed

lemma send_control_c: "send_control ucd_upper [0x63] s = Inr (write_raw [3] s)"
  and send_control_C: "send_control ucd_upper [0x43] s = Inr (write_raw [3] s)"
  by (simp_all add: send_control_def py_upper_def latin1_upper_def)

section \<open>Waiting for a marker\<close>

text \<open>
  C2 as stated: whenever a marker is in the sanitized buffer the call returns the
  text and clears the buffer.  With \<open>timeout_ms = 10 ^ 400\<close> the division
  \<open>timeout_ms / 1000.0\<close> raises \<open>OverflowError\<close> before the buffer is looked at;
  nothing is returned and the buffer is not cleared.
\<close>

theorem read_until_ready_huge_timeout:
  "[0x24, 0x20] \<in> set (markers ((AGTerm_init 100 None 3)\<lparr>buffer := [0x68, 0x0D, 0x0A, 0x24, 0x20]\<rparr>))
   \<and> contains [0x24, 0x20]
        (sanitize (buffer ((AGTerm_init 100 None 3)\<lparr>buffer := [0x68, 0x0D, 0x0A, 0x24, 0x20]\<rparr>)))
   \<and> read_until_ready 9223372036 (10 ^ 400) (steady_clock (1 / 1000)) []
        ((AGTerm_init 100 None 3)\<lparr>buffer := [0x68, 0x0D, 0x0A, 0x24, 0x20]\<rparr>)
       = Some (Inl OverflowError,
               (AGTerm_init 100 None 3)\<lparr>buffer := [0x68, 0x0D, 0x0A, 0x24, 0x20]\<rparr>, 0)"
proof -
  let ?s = "(AGTerm_init 100 None 3)\<lparr>buffer := [0x68, 0x0D, 0x0A, 0x24, 0x20]\<rparr>"
  have t: "sanitize (buffer ?s) = [0x68, 0x0A, 0x24, 0x20]"
    by (simp add: sanitize_eval)
  have h1: "[0x24, 0x20] \<in> set (markers ?s)"
    by (simp add: AGTerm_init_def default_markers_def)
  have h2: "contains [0x24, 0x20] (sanitize (buffer ?s))"
    unfolding t by simp
  have h3: "\<not> float_convertible (10 ^ 400)"
    by (simp add: float_convertible_def)
  show ?thesis
    using h1 h2 h3 by (simp add: read_until_ready_def)
qed

text \<open>
  C2, amended: for a \<open>timeout_ms\<close> that can be converted to a float, when a configured
  marker occurs in the sanitized buffer at the time of the call, \<open>read_until_ready\<close>
  returns the sanitized text and clears the buffer without waiting, whatever the
  clock and the environment do; the marker that ends the search is the first one of
  the list that occurs in the text.
\<close>

theorem read_until_ready_marker_present:
  assumes "float_convertible timeout_ms"
    and "m \<in> set (markers s)" and "contains m (sanitize (buffer s))"
  shows "read_until_ready wait_max timeout_ms clock wakes s
           = Some (Inr (sanitize (buffer s)), s\<lparr>buffer := []\<rparr>, 0)
         \<and> (\<exists>i<length (markers s).
               find (\<lambda>m. contains m (sanitize (buffer s))) (markers s) = Some (markers s ! i)
               \<and> contains (markers s ! i) (sanitize (buffer s))
               \<and> (\<forall>j<i. \<not> contains (markers s ! j) (sanitize (buffer s))))"
proof -
  let ?t = "sanitize (buffer s)"
  from assms(2,3) have "find (\<lambda>m. contains m ?t) (markers s) \<noteq> None"
    by (auto simp: find_None_iff)
  then obtain m' where f: "find (\<lambda>m. contains m ?t) (markers s) = Some m'"
    by blast
  with assms(1)
  have "read_until_ready wait_max timeout_ms clock wakes s = Some (Inr ?t, s\<lparr>buffer := []\<rparr>, 0)"
    by (simp add: read_until_ready_def)
  moreover from f obtain i where "i < length (markers s)" "m' = markers s ! i"
    "contains (markers s ! i) ?t" "\<forall>j<i. \<not> contains (markers s ! j) ?t"
    by (auto simp: find_Some_iff)
  ultimately show ?thesis
    using f by blast
qed

theorem read_until_ready_marker_present_witness:
  "float_convertible 10000
   \<and> [0x24, 0x20] \<in> set (markers ((AGTerm_init 100 None 3)\<lparr>buffer := [0x68, 0x0D, 0x0A, 0x24, 0x20]\<rparr>))
   \<and> contains [0x24, 0x20]
        (sanitize (buffer ((AGTerm_init 100 None 3)\<lparr>buffer := [0x68, 0x0D, 0x0A, 0x24, 0x20]\<rparr>)))
   \<and> read_until_ready 9223372036 10000 (steady_clock (1 / 1000)) []
        ((AGTerm_init 100 None 3)\<lparr>buffer := [0x68, 0x0D, 0x0A, 0x24, 0x20]\<rparr>)
       = Some (Inr [0x68, 0x0A, 0x24, 0x20], (AGTerm_init 100 None 3)\<lparr>buffer := []\<rparr>, 0)"
proof -
  let ?s = "(AGTerm_init 100 None 3)\<lparr>buffer := [0x68, 0x0D, 0x0A, 0x24, 0x20]\<rparr>"
  have t: "sanitize (buffer ?s) = [0x68, 0x0A, 0x24, 0x20]"
    by (simp add: sanitize_eval)
  have h0: "float_convertible 10000"
    by (simp add: float_convertible_def)
  have h1: "[0x24, 0x20] \<in> set (markers ?s)"
    by (simp add: AGTerm_init_def default_markers_def)
  have h2: "contains [0x24, 0x20] (sanitize (buffer ?s))"
    unfolding t by simp
  show ?thesis
    using h0 h1 h2
      read_until_ready_marker_present [OF h0 h1 h2, of 9223372036 "steady_clock (1 / 1000)" "[]"]
    unfolding t by simp
qed

text \<open>
  C7 as stated: after \<open>close\<close>, a read with a positive timeout and no marker in the
  buffer raises the process-died error.  The loop checks the deadline before it asks
  whether the session is alive: with a timeout of one millisecond and two
  milliseconds between the two readings of the clock the error is \<open>PtyTimeoutError\<close>.
\<close>

theorem read_after_close_times_out:
  "(0 :: int) < 1
   \<and> no_marker (close ((AGTerm_init 100 None 3)\<lparr>buffer := [0x68, 0x69]\<rparr>))
   \<and> read_until_ready 9223372036 1 (steady_clock (1 / 500)) []
        (close ((AGTerm_init 100 None 3)\<lparr>buffer := [0x68, 0x69]\<rparr>))
       = Some (Inl (PtyTimeoutError ''Timeout'' [0x68, 0x69]),
               close ((AGTerm_init 100 None 3)\<lparr>buffer := [0x68, 0x69]\<rparr>), 0)"
proof -
  let ?s = "(AGTerm_init 100 None 3)\<lparr>buffer := [0x68, 0x69]\<rparr>"
  have b: "buffer (close ?s) = [0x68, 0x69]" "markers (close ?s) = default_markers"
    by (simp_all add: close_def AGTerm_init_def)
  have t: "sanitize [0x68, 0x69] = [0x68, 0x69]"
    by (simp add: sanitize_eval)
  have h1: "no_marker (close ?s)"
    unfolding no_marker_def b t by (simp add: default_markers_def)
  have h2: "float_convertible 1"
    by (simp add: float_convertible_def)
  have "find (\<lambda>m. contains m (sanitize (buffer (close ?s)))) (markers (close ?s)) = None"
    using h1 by (simp add: no_marker_def)
  then show ?thesis
    using h1 h2
    by (simp add: read_until_ready_def b t steady_clock_def PtyTimeoutError_init_def
        py_slice_from_def)
qed

text \<open>
  C7, amended: after \<open>close\<close> the session is not alive.  A \<open>read_until_ready\<close> that
  follows, with a \<open>timeout_ms\<close> that can be converted to a float and no marker in the
  buffer, raises without waiting at all: \<open>PtyTimeoutError\<close> when the clock has reached
  the deadline at the first check, and \<open>PtyError("Subprocess died")\<close> otherwise.
\<close>

theorem read_after_close_fails:
  "\<not> is_alive (close s) \<and>
   (no_marker (close s) \<longrightarrow> float_convertible timeout_ms \<longrightarrow>
      read_until_ready wait_max timeout_ms clock wakes (close s)
        = Some (Inl (if clock 0 + real_of_int timeout_ms / 1000 \<le> clock (Suc 0)
                     then PtyTimeoutError_init ''Timeout'' (sanitize (buffer (close s)))
                     else PtyError ''Subprocess died''),
                close s, 0))"
proof -
  have "\<not> is_alive (close s)"
    by (simp add: is_alive_def close_def)
  then show ?thesis
    by (simp add: read_until_ready_def no_marker_def Let_def)
qed

theorem read_after_close_fails_witness:
  "no_marker (close ((AGTerm_init 100 None 3)\<lparr>buffer := [0x68, 0x69]\<rparr>))
   \<and> float_convertible 1000
   \<and> \<not> steady_clock (1 / 1000) 0 + real_of_int 1000 / 1000 \<le> steady_clock (1 / 1000) (Suc 0)
   \<and> read_until_ready 9223372036 1000 (steady_clock (1 / 1000)) []
        (close ((AGTerm_init 100 None 3)\<lparr>buffer := [0x68, 0x69]\<rparr>))
       = Some (Inl (PtyError ''Subprocess died''),
               close ((AGTerm_init 100 None 3)\<lparr>buffer := [0x68, 0x69]\<rparr>), 0)"
proof -
  let ?s = "(AGTerm_init 100 None 3)\<lparr>buffer := [0x68, 0x69]\<rparr>"
  have b: "buffer (close ?s) = [0x68, 0x69]" "markers (close ?s) = default_markers"
    by (simp_all add: close_def AGTerm_init_def)
  have t: "sanitize [0x68, 0x69] = [0x68, 0x69]"
    by (simp add: sanitize_eval)
  have h1: "no_marker (close ?s)"
    unfolding no_marker_def b t by (simp add: default_markers_def)
  have h2: "float_convertible 1000"
    by (simp add: float_convertible_def)
  have h3: "\<not> steady_clock (1 / 1000) 0 + real_of_int 1000 / 1000
              \<le> steady_clock (1 / 1000) (Suc 0)"
    by (simp add: steady_clock_def)
  show ?thesis
    using h1 h2 h3
      read_after_close_fails [of ?s 1000 9223372036 "steady_clock (1 / 1000)" "[]"]
    by simp
qed

section \<open>Facts about patterns\<close>

declare matches.simps [simp del]
declare re_sub_empty.simps [simp del]

lemma in_matches_Lit:
  "r \<in> set (matches (Lit a) xs) \<longleftrightarrow> xs = a # r"
  by (cases xs) (auto simp: matches.simps(1))

lemma in_matches_Cls:
  "r \<in> set (matches (Cls P) xs) \<longleftrightarrow> (\<exists>x. xs = x # r \<and> P x)"
  by (cases xs) (auto simp: matches.simps(2))

lemma in_matches_Seq:
  "r \<in> set (matches (Seq p q) xs) \<longleftrightarrow> (\<exists>r1\<in>set (matches p xs). r \<in> set (matches q r1))"
  by (auto simp: matches.simps(3))

lemma in_matches_Alt:
  "r \<in> set (matches (Alt p q) xs) \<longleftrightarrow> r \<in> set (matches p xs) \<or> r \<in> set (matches q xs)"
  by (auto simp: matches.simps(4))

lemma in_matches_Star:
  "r \<in> set (matches (Star p) xs) \<longleftrightarrow>
     r = xs \<or> (\<exists>r1\<in>set (matches p xs). length r1 < length xs \<and> r \<in> set (matches (Star p) r1))"
  by (subst matches.simps(5)) (auto split: if_splits)

lemma in_matches_LazyStar:
  "r \<in> set (matches (LazyStar p) xs) \<longleftrightarrow>
     r = xs \<or> (\<exists>r1\<in>set (matches p xs). length r1 < length xs
                 \<and> r \<in> set (matches (LazyStar p) r1))"
  by (subst matches.simps(6)) (auto split: if_splits)

lemma matches_avoids:
  "avoids a p \<Longrightarrow> r \<in> set (matches p xs) \<Longrightarrow> \<exists>m. xs = m @ r \<and> a \<notin> set m"
proof (induction p xs arbitrary: r rule: matches.induct)
  case (1 b xs)
  then have "xs = [b] @ r \<and> a \<notin> set [b]" by (simp add: in_matches_Lit)
  then show ?case by blast
next
  case (2 P xs)
  then obtain x where "xs = [x] @ r \<and> a \<notin> set [x]" by (auto simp: in_matches_Cls)
  then show ?case by blast
next
  case (3 p q xs)
  from 3(4) obtain r1 where r1: "r1 \<in> set (matches p xs)" "r \<in> set (matches q r1)"
    by (auto simp: in_matches_Seq)
  from 3(1)[OF _ r1(1)] 3(3) obtain m1 where m1: "xs = m1 @ r1" "a \<notin> set m1" by auto
  from 3(2)[OF r1(1) _ r1(2)] 3(3) obtain m2 where m2: "r1 = m2 @ r" "a \<notin> set m2" by auto
  from m1 m2 have "xs = (m1 @ m2) @ r \<and> a \<notin> set (m1 @ m2)" by simp
  then show ?case by blast
next
  case (4 p q xs)
  then show ?case by (auto simp: in_matches_Alt)
next
  case (5 p xs)
  show ?case
  proof (cases "r = xs")
    case True
    then show ?thesis by simp
  next
    case False
    with 5(4) obtain r1 where r1: "r1 \<in> set (matches p xs)" "length r1 < length xs"
      "r \<in> set (matches (Star p) r1)"
      using in_matches_Star [of r p xs] by blast
    from 5(1)[OF _ r1(1)] 5(3) obtain m1 where m1: "xs = m1 @ r1" "a \<notin> set m1" by auto
    from 5(2)[OF r1(1) r1(2) 5(3) r1(3)] obtain m2 where m2: "r1 = m2 @ r" "a \<notin> set m2" by auto
    from m1 m2 have "xs = (m1 @ m2) @ r \<and> a \<notin> set (m1 @ m2)" by simp
    then show ?thesis by blast
  qed
next
  case (6 p xs)
  show ?case
  proof (cases "r = xs")
    case True
    then show ?thesis by simp
  next
    case False
    with 6(4) obtain r1 where r1: "r1 \<in> set (matches p xs)" "length r1 < length xs"
      "r \<in> set (matches (LazyStar p) r1)"
      using in_matches_LazyStar [of r p xs] by blast
    from 6(1)[OF _ r1(1)] 6(3) obtain m1 where m1: "xs = m1 @ r1" "a \<notin> set m1" by auto
    from 6(2)[OF r1(1) r1(2) 6(3) r1(3)] obtain m2 where m2: "r1 = m2 @ r" "a \<notin> set m2" by auto
    from m1 m2 have "xs = (m1 @ m2) @ r \<and> a \<notin> set (m1 @ m2)" by simp
    then show ?thesis by blast
  qed
qed

text \<open>Every remainder is a suffix: the class that accepts nothing is avoided by all.\<close>

lemma matches_suffix: "r \<in> set (matches p xs) \<Longrightarrow> suffix r xs"
proof (induction p xs arbitrary: r rule: matches.induct)
  case (1 a xs)
  then show ?case by (auto simp: in_matches_Lit suffix_Cons)
next
  case (2 P xs)
  then show ?case by (auto simp: in_matches_Cls suffix_Cons)
next
  case (3 p q xs)
  then show ?case unfolding in_matches_Seq by (blast intro: suffix_order.trans)
next
  case (4 p q xs)
  then show ?case unfolding in_matches_Alt by blast
next
  case (5 p xs)
  from 5(3) have "r = xs \<or> (\<exists>r1\<in>set (matches p xs). length r1 < length xs
      \<and> r \<in> set (matches (Star p) r1))"
    using in_matches_Star [of r p xs] by blast
  with 5(1,2) show ?case by (blast intro: suffix_order.trans)
next
  case (6 p xs)
  from 6(3) have "r = xs \<or> (\<exists>r1\<in>set (matches p xs). length r1 < length xs
      \<and> r \<in> set (matches (LazyStar p) r1))"
    using in_matches_LazyStar [of r p xs] by blast
  with 6(1,2) show ?case by (blast intro: suffix_order.trans)
qed

lemma matches_needs: "needs a p \<Longrightarrow> a \<notin> set xs \<Longrightarrow> matches p xs = []"
proof (induction p arbitrary: xs)
  case (Lit b)
  then show ?case by (cases xs) (auto simp: matches.simps(1))
next
  case (Alt p q)
  then show ?case by (simp add: matches.simps(4))
next
  case (Seq p q)
  show ?case
  proof (cases "needs a p")
    case True
    with Seq show ?thesis by (simp add: matches.simps(3))
  next
    case False
    with Seq.prems have q: "needs a q" by simp
    have "matches q r = []" if "r \<in> set (matches p xs)" for r
    proof -
      from that have "suffix r xs" by (rule matches_suffix)
      then have "set r \<subseteq> set xs" by (rule set_mono_suffix)
      with Seq.prems(2) have "a \<notin> set r" by blast
      with q show ?thesis by (rule Seq.IH(2))
    qed
    then show ?thesis by (simp add: matches.simps(3))
  qed
qed simp_all

lemma re_sub_empty_needs: "needs a p \<Longrightarrow> a \<notin> set xs \<Longrightarrow> re_sub_empty p xs = xs"
  by (induction xs) (auto simp: matches_needs re_sub_empty.simps)

lemma re_sub_empty_subset: "set (re_sub_empty p xs) \<subseteq> set xs"
proof (induction p xs rule: re_sub_empty.induct)
  case (1 p)
  then show ?case by (simp add: re_sub_empty.simps)
next
  case (2 p x xs)
  show ?case
  proof (cases "matches p (x # xs)")
    case Nil
    with 2 show ?thesis by (auto simp: re_sub_empty.simps)
  next
    case (Cons r rs)
    then have "r \<in> set (matches p (x # xs))" by simp
    then have "suffix r (x # xs)" by (rule matches_suffix)
    then have "set r \<subseteq> set (x # xs)" by (rule set_mono_suffix)
    with 2 Cons show ?thesis by (auto simp: re_sub_empty.simps)
  qed
qed

lemma re_sub_empty_avoids:
  "avoids a p \<Longrightarrow> filter ((=) a) (re_sub_empty p xs) = filter ((=) a) xs"
proof (induction p xs rule: re_sub_empty.induct)
  case (1 p)
  then show ?case by (simp add: re_sub_empty.simps)
next
  case (2 p x xs)
  show ?case
  proof (cases "matches p (x # xs)")
    case Nil
    then have "re_sub_empty p (x # xs) = x # re_sub_empty p xs"
      by (simp add: re_sub_empty.simps)
    moreover have "filter ((=) a) (re_sub_empty p xs) = filter ((=) a) xs"
      using Nil 2(1) 2(4) by simp
    ultimately show ?thesis by auto
  next
    case (Cons r rs)
    show ?thesis
    proof (cases "length r < length (x # xs)")
      case True
      with Cons have e: "re_sub_empty p (x # xs) = re_sub_empty p r"
        by (simp add: re_sub_empty.simps)
      from Cons have "r \<in> set (matches p (x # xs))" by simp
      with 2(4) obtain m where m: "x # xs = m @ r" "a \<notin> set m"
        using matches_avoids by metis
      from m(2) have "filter ((=) a) m = []"
        by (induction m) auto
      then have f: "filter ((=) a) (m @ r) = filter ((=) a) r"
        by simp
      have "filter ((=) a) (re_sub_empty p (x # xs)) = filter ((=) a) (re_sub_empty p r)"
        by (simp only: e)
      also have "\<dots> = filter ((=) a) r"
        using Cons True 2(2) 2(4) by simp
      also have "\<dots> = filter ((=) a) (x # xs)"
        using f by (simp only: m(1))
      finally show ?thesis .
    next
      case False
      with Cons have "re_sub_empty p (x # xs) = x # re_sub_empty p xs"
        by (simp add: re_sub_empty.simps)
      moreover have "filter ((=) a) (re_sub_empty p xs) = filter ((=) a) xs"
        using Cons False 2(3) 2(4) by simp
      ultimately show ?thesis by auto
    qed
  qed
qed

lemma needs_ANSI: "needs 0x1B ANSI_RE" by (simp add: ANSI_RE_def)
lemma needs_OSC: "needs 0x07 OSC133_RE" by (simp add: OSC133_RE_def)
lemma avoids_OSC: "avoids 0x0A OSC133_RE" by (simp add: OSC133_RE_def)

section \<open>Line endings\<close>

declare str_replace.simps [simp del]

lemma replace_cr: "str_replace [0x0D] [0x0A] t = map (\<lambda>c. if c = 0x0D then 0x0A else c) t"
  by (induction t) (auto simp: str_replace.simps)

lemma replace_crlf_Nil: "str_replace [0x0D, 0x0A] [0x0A] [] = ([] :: nat list)"
  by (simp add: str_replace.simps)

lemma replace_crlf_single: "str_replace [0x0D, 0x0A] [0x0A] [c] = ([c] :: nat list)"
  by (simp add: str_replace.simps)

lemma replace_crlf_Cons2:
  "str_replace [0x0D, 0x0A] [0x0A] (c # d # cs) =
     (if c = 0x0D \<and> d = 0x0A then 0x0A # str_replace [0x0D, 0x0A] [0x0A] cs
      else c # str_replace [0x0D, 0x0A] [0x0A] (d # cs) :: nat list)"
  by (simp add: str_replace.simps)

lemma normalize_newlines_single_pass: "normalize_newlines t = line_endings_to_lf t"
  unfolding normalize_newlines_def replace_cr
  by (induction t rule: line_endings_to_lf.induct)
     (simp_all add: replace_crlf_Nil replace_crlf_single replace_crlf_Cons2)

lemma count_lf_line_endings:
  "length (filter ((=) 0x0A) (line_endings_to_lf t)) = count_line_endings t"
  by (induction t rule: line_endings_to_lf.induct) auto

text \<open>
  C8.  The two \<open>replace\<close> calls of \<open>sanitize\<close> together are the one-pass
  normalization: each pair of carriage return and linefeed and each carriage return
  alone becomes one linefeed.  None of these linefeeds is lost or doubled later: the
  output holds as many linefeeds as the decoded text holds line endings, a pair
  counted once, and no carriage return.
\<close>

theorem sanitize_line_endings:
  "normalize_newlines t = line_endings_to_lf t
   \<and> count_list (sanitize data) 0x0A = count_line_endings (decoded data)
   \<and> 0x0D \<notin> set (sanitize data)"
proof -
  have k: "filter ((=) 0x0A) (filter keep_char xs) = filter ((=) 0x0A) xs" for xs
    by (induction xs) (auto simp: keep_char_def)
  have d: "decoded [] = []"
    by (simp add: decoded_def re_sub_empty.simps)
  have "filter ((=) 0x0A) (sanitize data) = filter ((=) 0x0A) (line_endings_to_lf (decoded data))"
  proof (cases "data = []")
    case True
    then show ?thesis by (simp add: sanitize_def d)
  next
    case False
    then have "sanitize data
        = filter keep_char (re_sub_empty OSC133_RE (line_endings_to_lf (decoded data)))"
      by (simp add: sanitize_def normalize_newlines_single_pass)
    then show ?thesis
      by (simp only: k re_sub_empty_avoids [OF avoids_OSC])
  qed
  then have "count_list (sanitize data) 0x0A = count_line_endings (decoded data)"
    by (simp add: count_list_eq_length_filter count_lf_line_endings [symmetric])
  moreover have "0x0D \<notin> set (sanitize data)"
    by (auto simp: sanitize_def keep_char_def)
  ultimately show ?thesis
    by (simp add: normalize_newlines_single_pass)
qed


section \<open>UTF-8\<close>

lemma dec_ascii:
  "unat b < 0x80 \<Longrightarrow> utf8_decode_replace (b # bs) = unat b # utf8_decode_replace bs"
  by simp

lemma dec_bad_start:
  "0x80 \<le> unat b \<Longrightarrow> unat b < 0xC2 \<or> 0xF5 \<le> unat b \<Longrightarrow>
   utf8_decode_replace (b # bs) = 0xFFFD # utf8_decode_replace bs"
  by auto

lemma dec_lead2:
  "0xC2 \<le> unat b \<Longrightarrow> unat b < 0xE0 \<Longrightarrow>
   utf8_decode_replace (b # bs) =
     (case bs of
        [] \<Rightarrow> [0xFFFD]
      | b2 # r2 \<Rightarrow>
          if \<not> is_cont b2 then 0xFFFD # utf8_decode_replace bs
          else ((unat b - 0xC0) * 64 + (unat b2 - 0x80)) # utf8_decode_replace r2)"
  by simp

lemma dec_lead3:
  "0xE0 \<le> unat b \<Longrightarrow> unat b < 0xF0 \<Longrightarrow>
   utf8_decode_replace (b # bs) =
        (case bs of
           [] \<Rightarrow> [0xFFFD]
         | b2 # r2 \<Rightarrow>
             if \<not> is_cont b2 \<or> (if unat b2 < 0xA0 then unat b = 0xE0 else unat b = 0xED)
             then 0xFFFD # utf8_decode_replace bs
             else (case r2 of
                     [] \<Rightarrow> [0xFFFD]
                   | b3 # r3 \<Rightarrow>
                       if \<not> is_cont b3 then 0xFFFD # utf8_decode_replace r2
                       else ((unat b - 0xE0) * 4096 + (unat b2 - 0x80) * 64 + (unat b3 - 0x80))
                            # utf8_decode_replace r3))"
  by simp

lemma dec_lead4:
  "0xF0 \<le> unat b \<Longrightarrow> unat b < 0xF5 \<Longrightarrow>
   utf8_decode_replace (b # bs) =
        (case bs of
           [] \<Rightarrow> [0xFFFD]
         | b2 # r2 \<Rightarrow>
             if \<not> is_cont b2 \<or> (if unat b2 < 0x90 then unat b = 0xF0 else unat b = 0xF4)
             then 0xFFFD # utf8_decode_replace bs
             else (case r2 of
                     [] \<Rightarrow> [0xFFFD]
                   | b3 # r3 \<Rightarrow>
                       if \<not> is_cont b3 then 0xFFFD # utf8_decode_replace r2
                       else (case r3 of
                               [] \<Rightarrow> [0xFFFD]
                             | b4 # r4 \<Rightarrow>
                                 if \<not> is_cont b4 then 0xFFFD # utf8_decode_replace r3
                                 else ((unat b - 0xF0) * 262144 + (unat b2 - 0x80) * 4096
                                       + (unat b3 - 0x80) * 64 + (unat b4 - 0x80))
                                      # utf8_decode_replace r4)))"
  by simp


declare utf8_decode_replace.simps(2) [simp del]

lemma cp2_scalar:
  "0xC2 \<le> u \<Longrightarrow> u < 0xE0 \<Longrightarrow> 0x80 \<le> u2 \<Longrightarrow> u2 < 0xC0 \<Longrightarrow>
   is_scalar ((u - 0xC0) * 64 + (u2 - 0x80))"
  unfolding is_scalar_def is_surrogate_def by linarith

lemma cp3_scalar:
  assumes "0xE0 \<le> u" "u < 0xF0" "0x80 \<le> u2" "u2 < 0xC0" "0x80 \<le> u3" "u3 < 0xC0"
    and "\<not> (if u2 < 0xA0 then u = 0xE0 else u = 0xED)"
  shows "is_scalar ((u - 0xE0) * 4096 + (u2 - 0x80) * 64 + (u3 - (0x80 :: nat)))"
proof -
  consider "u \<le> 0xEC" | "u = 0xED" | "0xEE \<le> u"
    by linarith
  then show ?thesis
  proof cases
    case 1
    with assms(1-6) show ?thesis
      unfolding is_scalar_def is_surrogate_def by linarith
  next
    case 2
    with assms(7) have "u2 < 0xA0"
      by (simp split: if_splits)
    with 2 assms(1-6) show ?thesis
      unfolding is_scalar_def is_surrogate_def by linarith
  next
    case 3
    with assms(1-6) show ?thesis
      unfolding is_scalar_def is_surrogate_def by linarith
  qed
qed

lemma cp4_scalar:
  assumes "0xF0 \<le> u" "u < 0xF5" "0x80 \<le> u2" "u2 < 0xC0" "0x80 \<le> u3" "u3 < 0xC0"
    "0x80 \<le> u4" "u4 < 0xC0"
    and "\<not> (if u2 < 0x90 then u = 0xF0 else u = 0xF4)"
  shows "is_scalar ((u - 0xF0) * 262144 + (u2 - 0x80) * 4096 + (u3 - 0x80) * 64
                    + (u4 - (0x80 :: nat)))"
proof -
  consider "u = 0xF0" | "0xF1 \<le> u" "u \<le> 0xF3" | "u = 0xF4"
    using assms(1,2) by linarith
  then show ?thesis
  proof cases
    case 1
    with assms(9) have "0x90 \<le> u2"
      by (simp split: if_splits)
    with 1 assms(1-8) show ?thesis
      unfolding is_scalar_def is_surrogate_def by linarith
  next
    case 2
    with assms(1-8) show ?thesis
      unfolding is_scalar_def is_surrogate_def by linarith
  next
    case 3
    with assms(9) have "u2 < 0x90"
      by (simp split: if_splits)
    with 3 assms(1-8) show ?thesis
      unfolding is_scalar_def is_surrogate_def by linarith
  qed
qed

lemma replacement_scalar: "is_scalar 0xFFFD"
  by (simp add: is_scalar_def is_surrogate_def)

lemma ascii_scalar: "u < 0x80 \<Longrightarrow> is_scalar u"
  by (simp add: is_scalar_def is_surrogate_def)

lemma decode_step:
  "\<exists>c r'. utf8_decode_replace (b # r) = c # utf8_decode_replace r'
           \<and> length r' \<le> length r \<and> is_scalar c"
proof -
  let ?P = "\<lambda>c r'. utf8_decode_replace (b # r) = c # utf8_decode_replace r'
           \<and> length r' \<le> length r \<and> is_scalar c"
  have fin: "[0xFFFD] = 0xFFFD # utf8_decode_replace []"
    by simp
  consider "unat b < 0x80" | "0x80 \<le> unat b" "unat b < 0xC2 \<or> 0xF5 \<le> unat b"
    | "0xC2 \<le> unat b" "unat b < 0xE0" | "0xE0 \<le> unat b" "unat b < 0xF0"
    | "0xF0 \<le> unat b" "unat b < 0xF5"
    by linarith
  then show ?thesis
  proof cases
    case 1
    then have "?P (unat b) r" by (simp add: dec_ascii ascii_scalar)
    then show ?thesis by blast
  next
    case 2
    then have "?P 0xFFFD r" by (simp add: dec_bad_start replacement_scalar)
    then show ?thesis by blast
  next
    case 3
    note d = dec_lead2 [OF 3, of r]
    show ?thesis
    proof (cases r)
      case Nil
      with d have "?P 0xFFFD []" by (simp add: replacement_scalar)
      then show ?thesis by blast
    next
      case (Cons b2 r2)
      show ?thesis
      proof (cases "is_cont b2")
        case False
        with d Cons have "?P 0xFFFD r" by (simp add: replacement_scalar)
        then show ?thesis by blast
      next
        case True
        then have "is_scalar ((unat b - 0xC0) * 64 + (unat b2 - 0x80))"
          using 3 by (intro cp2_scalar) (simp_all add: is_cont_def)
        with d Cons True have "?P ((unat b - 0xC0) * 64 + (unat b2 - 0x80)) r2" by simp
        then show ?thesis by blast
      qed
    qed
  next
    case 4
    show ?thesis
    proof (cases r)
      case Nil
      with dec_lead3 [OF 4, of r] have "?P 0xFFFD []" by (simp add: replacement_scalar)
      then show ?thesis by blast
    next
      case r: (Cons b2 r2)
      define bad where
        "bad \<longleftrightarrow> \<not> is_cont b2 \<or> (if unat b2 < 0xA0 then unat b = 0xE0 else unat b = 0xED)"
      have d: "utf8_decode_replace (b # r) =
          (if bad then 0xFFFD # utf8_decode_replace r
           else (case r2 of
                   [] \<Rightarrow> [0xFFFD]
                 | b3 # r3 \<Rightarrow>
                     if \<not> is_cont b3 then 0xFFFD # utf8_decode_replace r2
                     else ((unat b - 0xE0) * 4096 + (unat b2 - 0x80) * 64 + (unat b3 - 0x80))
                          # utf8_decode_replace r3))"
        unfolding bad_def r by (simp only: dec_lead3 [OF 4] list.case)
      show ?thesis
      proof (cases bad)
        case True
        with d have "?P 0xFFFD r" by (simp add: replacement_scalar)
        then show ?thesis by blast
      next
        case ok2: False
        then have c2: "0x80 \<le> unat b2" "unat b2 < 0xC0"
          "\<not> (if unat b2 < 0xA0 then unat b = 0xE0 else unat b = 0xED)"
          by (simp_all add: bad_def is_cont_def)
        show ?thesis
        proof (cases r2)
          case Nil
          with d r ok2 have "?P 0xFFFD []" by (simp add: replacement_scalar)
          then show ?thesis by blast
        next
          case r2: (Cons b3 r3)
          show ?thesis
          proof (cases "is_cont b3")
            case False
            with d r r2 ok2 have "?P 0xFFFD r2" by (simp add: replacement_scalar)
            then show ?thesis by blast
          next
            case True
            then have "0x80 \<le> unat b3" "unat b3 < 0xC0"
              by (simp_all add: is_cont_def)
            with 4 c2
            have "is_scalar ((unat b - 0xE0) * 4096 + (unat b2 - 0x80) * 64 + (unat b3 - 0x80))"
              by (intro cp3_scalar)
            with d r r2 ok2 True
            have "?P ((unat b - 0xE0) * 4096 + (unat b2 - 0x80) * 64 + (unat b3 - 0x80)) r3"
              by simp
            then show ?thesis by blast
          qed
        qed
      qed
    qed
  next
    case 5
    show ?thesis
    proof (cases r)
      case Nil
      with dec_lead4 [OF 5, of r] have "?P 0xFFFD []" by (simp add: replacement_scalar)
      then show ?thesis by blast
    next
      case r: (Cons b2 r2)
      define bad where
        "bad \<longleftrightarrow> \<not> is_cont b2 \<or> (if unat b2 < 0x90 then unat b = 0xF0 else unat b = 0xF4)"
      have d: "utf8_decode_replace (b # r) =
          (if bad then 0xFFFD # utf8_decode_replace r
           else (case r2 of
                     [] \<Rightarrow> [0xFFFD]
                   | b3 # r3 \<Rightarrow>
                       if \<not> is_cont b3 then 0xFFFD # utf8_decode_replace r2
                       else (case r3 of
                               [] \<Rightarrow> [0xFFFD]
                             | b4 # r4 \<Rightarrow>
                                 if \<not> is_cont b4 then 0xFFFD # utf8_decode_replace r3
                                 else ((unat b - 0xF0) * 262144 + (unat b2 - 0x80) * 4096
                                       + (unat b3 - 0x80) * 64 + (unat b4 - 0x80))
                                      # utf8_decode_replace r4)))"
        unfolding bad_def r by (simp only: dec_lead4 [OF 5] list.case)
      show ?thesis
      proof (cases bad)
        case True
        with d have "?P 0xFFFD r" by (simp add: replacement_scalar)
        then show ?thesis by blast
      next
        case ok2: False
        then have c2: "0x80 \<le> unat b2" "unat b2 < 0xC0"
          "\<not> (if unat b2 < 0x90 then unat b = 0xF0 else unat b = 0xF4)"
          by (simp_all add: bad_def is_cont_def)
        show ?thesis
        proof (cases r2)
          case Nil
          with d r ok2 have "?P 0xFFFD []" by (simp add: replacement_scalar)
          then show ?thesis by blast
        next
          case r2: (Cons b3 r3)
          show ?thesis
          proof (cases "is_cont b3")
            case False
            with d r r2 ok2 have "?P 0xFFFD r2" by (simp add: replacement_scalar)
            then show ?thesis by blast
          next
            case ok3: True
            then have c3: "0x80 \<le> unat b3" "unat b3 < 0xC0"
              by (simp_all add: is_cont_def)
            show ?thesis
            proof (cases r3)
              case Nil
              with d r r2 ok2 ok3 have "?P 0xFFFD []" by (simp add: replacement_scalar)
              then show ?thesis by blast
            next
              case r3: (Cons b4 r4)
              show ?thesis
              proof (cases "is_cont b4")
                case False
                with d r r2 r3 ok2 ok3 have "?P 0xFFFD r3" by (simp add: replacement_scalar)
                then show ?thesis by blast
              next
                case True
                then have "0x80 \<le> unat b4" "unat b4 < 0xC0"
                  by (simp_all add: is_cont_def)
                with 5 c2 c3
                have "is_scalar ((unat b - 0xF0) * 262144 + (unat b2 - 0x80) * 4096
                         + (unat b3 - 0x80) * 64 + (unat b4 - 0x80))"
                  by (intro cp4_scalar)
                with d r r2 r3 ok2 ok3 True
                have "?P ((unat b - 0xF0) * 262144 + (unat b2 - 0x80) * 4096
                         + (unat b3 - 0x80) * 64 + (unat b4 - 0x80)) r4"
                  by simp
                then show ?thesis by blast
              qed
            qed
          qed
        qed
      qed
    qed
  qed
qed

lemma decode_scalar: "c \<in> set (utf8_decode_replace bs) \<Longrightarrow> is_scalar c"
proof (induction "length bs" arbitrary: bs rule: less_induct)
  case less
  show ?case
  proof (cases bs)
    case Nil
    with less.prems show ?thesis by simp
  next
    case (Cons b r)
    from decode_step [of b r] obtain c' r' where
      s: "utf8_decode_replace (b # r) = c' # utf8_decode_replace r'"
         "length r' \<le> length r" "is_scalar c'"
      by blast
    from less.prems Cons s(1) have "c = c' \<or> c \<in> set (utf8_decode_replace r')"
      by simp
    then show ?thesis
    proof
      assume "c = c'"
      with s(3) show ?thesis by simp
    next
      assume "c \<in> set (utf8_decode_replace r')"
      moreover from s(2) Cons have "length r' < length bs" by simp
      ultimately show ?thesis by (rule less.hyps [rotated])
    qed
  qed
qed

lemma unat_byte: "n < 256 \<Longrightarrow> unat (of_nat n :: byte) = n"
  by (simp add: unat_of_nat)

lemma enc1:
  assumes "c < 0x80"
  shows "utf8_encode_char c = Inr [of_nat c]"
    and "utf8_decode_replace (of_nat c # r) = c # utf8_decode_replace r"
proof -
  from assms have u: "unat (of_nat c :: byte) = c" by (simp add: unat_byte)
  show "utf8_encode_char c = Inr [of_nat c]" using assms by (simp add: utf8_encode_char_def)
  show "utf8_decode_replace (of_nat c # r) = c # utf8_decode_replace r"
    using assms u by (simp add: dec_ascii)
qed

lemma enc2:
  assumes "0x80 \<le> c" "c < 0x800"
  shows "utf8_encode_char c = Inr [of_nat (0xC0 + c div 64), of_nat (0x80 + c mod 64)]"
    and "utf8_decode_replace (of_nat (0xC0 + c div 64) # of_nat (0x80 + c mod 64) # r)
           = c # utf8_decode_replace r"
    and "0x80 \<le> unat (of_nat (0xC0 + c div 64) :: byte)"
    and "0x80 \<le> unat (of_nat (0x80 + c mod 64) :: byte)"
proof -
  define q where "q = c div 64"
  define m where "m = c mod 64"
  have c: "c = q * 64 + m" "m < 64" by (simp_all add: q_def m_def)
  with assms have q: "2 \<le> q" "q < 32" by linarith+
  have u1: "unat (of_nat (0xC0 + q) :: byte) = 0xC0 + q" using q by (intro unat_byte) simp
  have u2: "unat (of_nat (0x80 + m) :: byte) = 0x80 + m" using c by (intro unat_byte) simp
  show "utf8_encode_char c = Inr [of_nat (0xC0 + c div 64), of_nat (0x80 + c mod 64)]"
    using assms by (simp add: utf8_encode_char_def)
  have "utf8_decode_replace (of_nat (0xC0 + q) # of_nat (0x80 + m) # r) = c # utf8_decode_replace r"
    using q c u1 u2 by (subst dec_lead2) (simp_all add: is_cont_def)
  then show "utf8_decode_replace (of_nat (0xC0 + c div 64) # of_nat (0x80 + c mod 64) # r)
           = c # utf8_decode_replace r"
    by (simp only: q_def m_def)
  show "0x80 \<le> unat (of_nat (0xC0 + c div 64) :: byte)" using u1 by (simp add: q_def)
  show "0x80 \<le> unat (of_nat (0x80 + c mod 64) :: byte)" using u2 by (simp add: m_def)
qed


lemma enc3:
  assumes "0x800 \<le> c" "c < 0x10000" "\<not> is_surrogate c"
  shows "utf8_encode_char c =
           Inr [of_nat (0xE0 + c div 4096), of_nat (0x80 + c div 64 mod 64),
                of_nat (0x80 + c mod 64)]"
    and "utf8_decode_replace (of_nat (0xE0 + c div 4096) # of_nat (0x80 + c div 64 mod 64)
             # of_nat (0x80 + c mod 64) # r) = c # utf8_decode_replace r"
    and "0x80 \<le> unat (of_nat (0xE0 + c div 4096) :: byte)"
    and "0x80 \<le> unat (of_nat (0x80 + c div 64 mod 64) :: byte)"
    and "0x80 \<le> unat (of_nat (0x80 + c mod 64) :: byte)"
proof -
  define m1 where "m1 = c mod 64"
  define q1 where "q1 = c div 64"
  define m2 where "m2 = q1 mod 64"
  define q2 where "q2 = q1 div 64"
  have e: "c div 4096 = q2" "c div 64 mod 64 = m2" "c mod 64 = m1"
    unfolding q2_def q1_def m2_def m1_def by (simp_all add: div_mult2_eq [symmetric])
  have c: "c = q1 * 64 + m1" "m1 < 64" "q1 = q2 * 64 + m2" "m2 < 64"
    by (simp_all add: q1_def m1_def q2_def m2_def)
  with assms(1,2) have q: "q2 < 16" "32 \<le> q1" by linarith+
  define b1 :: byte where "b1 = of_nat (0xE0 + q2)"
  define b2 :: byte where "b2 = of_nat (0x80 + m2)"
  define b3 :: byte where "b3 = of_nat (0x80 + m1)"
  have u1: "unat b1 = 0xE0 + q2" unfolding b1_def using q by (intro unat_byte) simp
  have u2: "unat b2 = 0x80 + m2" unfolding b2_def using c by (intro unat_byte) simp
  have u3: "unat b3 = 0x80 + m1" unfolding b3_def using c by (intro unat_byte) simp
  have ok: "\<not> (if m2 < 32 then q2 = 0 else q2 = 13)"
  proof (cases "m2 < 32")
    case True
    with c q show ?thesis by simp
  next
    case False
    have "q2 \<noteq> 13"
    proof
      assume "q2 = 13"
      with False c have "0xD800 \<le> c" "c \<le> 0xDFFF" by linarith+
      with assms(3) show False by (simp add: is_surrogate_def)
    qed
    with False show ?thesis by simp
  qed
  then have ok': "m2 < 32 \<Longrightarrow> 0 < q2" "\<not> m2 < 32 \<Longrightarrow> q2 \<noteq> 13"
    by (simp_all split: if_splits)
  have v: "q2 * 4096 + m2 * 64 + m1 = c" using c by linarith
  show "utf8_encode_char c =
           Inr [of_nat (0xE0 + c div 4096), of_nat (0x80 + c div 64 mod 64),
                of_nat (0x80 + c mod 64)]"
    using assms by (simp add: utf8_encode_char_def)
  have l: "0xE0 \<le> unat b1" "unat b1 < 0xF0"
    using q u1 by simp_all
  have "utf8_decode_replace (b1 # b2 # b3 # r) = c # utf8_decode_replace r"
    unfolding dec_lead3 [OF l] using ok' c v by (simp add: is_cont_def u1 u2 u3)
  then show "utf8_decode_replace (of_nat (0xE0 + c div 4096) # of_nat (0x80 + c div 64 mod 64)
             # of_nat (0x80 + c mod 64) # r) = c # utf8_decode_replace r"
    by (simp only: e b1_def b2_def b3_def)
  have "0x80 \<le> unat b1" using u1 by simp
  then show "0x80 \<le> unat (of_nat (0xE0 + c div 4096) :: byte)"
    by (simp only: e b1_def)
  have "0x80 \<le> unat b2" using u2 by simp
  then show "0x80 \<le> unat (of_nat (0x80 + c div 64 mod 64) :: byte)"
    by (simp only: e b2_def)
  have "0x80 \<le> unat b3" using u3 by simp
  then show "0x80 \<le> unat (of_nat (0x80 + c mod 64) :: byte)"
    by (simp only: e b3_def)
qed

lemma enc4:
  assumes "0x10000 \<le> c" "c \<le> 0x10FFFF"
  shows "utf8_encode_char c =
           Inr [of_nat (0xF0 + c div 262144), of_nat (0x80 + c div 4096 mod 64),
                of_nat (0x80 + c div 64 mod 64), of_nat (0x80 + c mod 64)]"
    and "utf8_decode_replace (of_nat (0xF0 + c div 262144) # of_nat (0x80 + c div 4096 mod 64)
             # of_nat (0x80 + c div 64 mod 64) # of_nat (0x80 + c mod 64) # r)
           = c # utf8_decode_replace r"
    and "0x80 \<le> unat (of_nat (0xF0 + c div 262144) :: byte)"
    and "0x80 \<le> unat (of_nat (0x80 + c div 4096 mod 64) :: byte)"
    and "0x80 \<le> unat (of_nat (0x80 + c div 64 mod 64) :: byte)"
    and "0x80 \<le> unat (of_nat (0x80 + c mod 64) :: byte)"
proof -
  define m1 where "m1 = c mod 64"
  define q1 where "q1 = c div 64"
  define m2 where "m2 = q1 mod 64"
  define q2 where "q2 = q1 div 64"
  define m3 where "m3 = q2 mod 64"
  define q3 where "q3 = q2 div 64"
  have e: "c div 262144 = q3" "c div 4096 mod 64 = m3" "c div 64 mod 64 = m2" "c mod 64 = m1"
    unfolding q3_def m3_def q2_def q1_def m2_def m1_def
    by (simp_all add: div_mult2_eq [symmetric])
  have c: "c = q1 * 64 + m1" "m1 < 64" "q1 = q2 * 64 + m2" "m2 < 64"
    "q2 = q3 * 64 + m3" "m3 < 64"
    by (simp_all add: q1_def m1_def q2_def m2_def q3_def m3_def)
  with assms have q: "q3 < 5" "16 \<le> q2" "q2 < 272" by linarith+
  define b1 :: byte where "b1 = of_nat (0xF0 + q3)"
  define b2 :: byte where "b2 = of_nat (0x80 + m3)"
  define b3 :: byte where "b3 = of_nat (0x80 + m2)"
  define b4 :: byte where "b4 = of_nat (0x80 + m1)"
  have u1: "unat b1 = 0xF0 + q3" unfolding b1_def using q by (intro unat_byte) simp
  have u2: "unat b2 = 0x80 + m3" unfolding b2_def using c by (intro unat_byte) simp
  have u3: "unat b3 = 0x80 + m2" unfolding b3_def using c by (intro unat_byte) simp
  have u4: "unat b4 = 0x80 + m1" unfolding b4_def using c by (intro unat_byte) simp
  have ok: "\<not> (if m3 < 16 then q3 = 0 else q3 = 4)"
    using c q by (cases "m3 < 16") simp_all
  then have ok': "m3 < 16 \<Longrightarrow> 0 < q3" "\<not> m3 < 16 \<Longrightarrow> q3 \<noteq> 4"
    by (simp_all split: if_splits)
  have v: "q3 * 262144 + m3 * 4096 + m2 * 64 + m1 = c" using c by linarith
  show "utf8_encode_char c =
           Inr [of_nat (0xF0 + c div 262144), of_nat (0x80 + c div 4096 mod 64),
                of_nat (0x80 + c div 64 mod 64), of_nat (0x80 + c mod 64)]"
    using assms by (simp add: utf8_encode_char_def is_surrogate_def)
  have l: "0xF0 \<le> unat b1" "unat b1 < 0xF5"
    using q u1 by simp_all
  have "utf8_decode_replace (b1 # b2 # b3 # b4 # r) = c # utf8_decode_replace r"
    unfolding dec_lead4 [OF l] using ok' c v
    by (cases "m3 < 16") (auto simp: is_cont_def u1 u2 u3 u4)
  then show "utf8_decode_replace (of_nat (0xF0 + c div 262144) # of_nat (0x80 + c div 4096 mod 64)
             # of_nat (0x80 + c div 64 mod 64) # of_nat (0x80 + c mod 64) # r)
           = c # utf8_decode_replace r"
    by (simp only: e b1_def b2_def b3_def b4_def)
  have "0x80 \<le> unat b1" using u1 by simp
  then show "0x80 \<le> unat (of_nat (0xF0 + c div 262144) :: byte)"
    by (simp only: e b1_def)
  have "0x80 \<le> unat b2" using u2 by simp
  then show "0x80 \<le> unat (of_nat (0x80 + c div 4096 mod 64) :: byte)"
    by (simp only: e b2_def)
  have "0x80 \<le> unat b3" using u3 by simp
  then show "0x80 \<le> unat (of_nat (0x80 + c div 64 mod 64) :: byte)"
    by (simp only: e b3_def)
  have "0x80 \<le> unat b4" using u4 by simp
  then show "0x80 \<le> unat (of_nat (0x80 + c mod 64) :: byte)"
    by (simp only: e b4_def)
qed

lemma encode_char_roundtrip:
  assumes "is_scalar c"
  shows "\<exists>bs. utf8_encode_char c = Inr bs
            \<and> (\<forall>r. utf8_decode_replace (bs @ r) = c # utf8_decode_replace r)
            \<and> (\<forall>b\<in>set bs. unat b = c \<or> 0x80 \<le> unat b)"
proof -
  from assms have s: "c \<le> 0x10FFFF" "\<not> is_surrogate c"
    by (simp_all add: is_scalar_def)
  consider "c < 0x80" | "0x80 \<le> c" "c < 0x800" | "0x800 \<le> c" "c < 0x10000" | "0x10000 \<le> c"
    by linarith
  then show ?thesis
  proof cases
    case 1
    then have "unat (of_nat c :: byte) = c" by (simp add: unat_byte)
    with enc1 [OF 1] show ?thesis by simp
  next
    case 2
    from enc2 [OF 2] show ?thesis by simp
  next
    case 3
    from enc3 [OF 3 s(2)] show ?thesis by simp
  next
    case 4
    from enc4 [OF 4 s(1)] show ?thesis by simp
  qed
qed

lemma encode_roundtrip:
  "list_all is_scalar t \<Longrightarrow>
   \<exists>bs. utf8_encode t = Inr bs \<and> utf8_decode_replace bs = t
        \<and> (\<forall>b\<in>set bs. unat b \<in> set t \<or> 0x80 \<le> unat b)"
proof (induction t)
  case Nil
  then show ?case by simp
next
  case (Cons c t)
  then obtain bs where bs: "utf8_encode t = Inr bs" "utf8_decode_replace bs = t"
    "\<forall>b\<in>set bs. unat b \<in> set t \<or> 0x80 \<le> unat b"
    by auto
  from Cons.prems have "is_scalar c" by simp
  from encode_char_roundtrip [OF this] obtain cs where cs: "utf8_encode_char c = Inr cs"
    "\<And>r. utf8_decode_replace (cs @ r) = c # utf8_decode_replace r"
    "\<forall>b\<in>set cs. unat b = c \<or> 0x80 \<le> unat b"
    by blast
  have "utf8_encode (c # t) = Inr (cs @ bs)" using bs(1) cs(1) by simp
  moreover have "utf8_decode_replace (cs @ bs) = c # t" using cs(2) bs(2) by simp
  moreover have "\<forall>b\<in>set (cs @ bs). unat b \<in> set (c # t) \<or> 0x80 \<le> unat b"
    using cs(3) bs(3) by auto
  ultimately show ?case by blast
qed

section \<open>Idempotence\<close>

lemma set_line_endings_to_lf: "set (line_endings_to_lf t) \<subseteq> insert 0x0A (set t)"
  by (induction t rule: line_endings_to_lf.induct) auto

lemma line_endings_to_lf_id: "0x0D \<notin> set t \<Longrightarrow> line_endings_to_lf t = t"
  by (induction t rule: line_endings_to_lf.induct) auto

lemma sanitize_chars: "c \<in> set (sanitize x) \<Longrightarrow> is_scalar c \<and> keep_char c"
proof -
  assume a: "c \<in> set (sanitize x)"
  then have x: "x \<noteq> []" by (auto simp: sanitize_def)
  with a have k: "keep_char c"
    and "c \<in> set (re_sub_empty OSC133_RE (normalize_newlines (decoded x)))"
    by (simp_all add: sanitize_def)
  then have "c \<in> set (line_endings_to_lf (decoded x))"
    using re_sub_empty_subset by (fastforce simp: normalize_newlines_single_pass)
  then have "c = 0x0A \<or> c \<in> set (decoded x)"
    using set_line_endings_to_lf by fastforce
  then have "is_scalar c"
    by (auto simp: decoded_def decode_scalar ascii_scalar)
  with k show ?thesis by simp
qed

text \<open>
  C6.  The text that \<open>sanitize\<close> returns can be encoded, and sanitizing its bytes gives
  the same text again.
\<close>

theorem sanitize_idempotent: "\<exists>bs. utf8_encode (sanitize x) = Inr bs \<and> sanitize bs = sanitize x"
proof -
  let ?t = "sanitize x"
  have sc: "list_all is_scalar ?t" and kp: "\<forall>c\<in>set ?t. keep_char c"
    using sanitize_chars by (auto simp: list_all_iff)
  from encode_roundtrip [OF sc] obtain bs where bs: "utf8_encode ?t = Inr bs"
    "utf8_decode_replace bs = ?t" "\<forall>b\<in>set bs. unat b \<in> set ?t \<or> 0x80 \<le> unat b"
    by blast
  have no: "0x1B \<notin> set ?t" "0x0D \<notin> set ?t" "0x07 \<notin> set ?t"
    using kp by (auto simp: keep_char_def)
  have "0x1B \<notin> set bs"
  proof
    assume "0x1B \<in> set bs"
    with bs(3) have "unat (0x1B :: byte) \<in> set ?t \<or> 0x80 \<le> unat (0x1B :: byte)" by blast
    with no(1) show False by simp
  qed
  then have "re_sub_empty ANSI_RE bs = bs"
    by (rule re_sub_empty_needs [OF needs_ANSI])
  then have d: "decoded bs = ?t"
    by (simp add: decoded_def bs(2))
  have n: "normalize_newlines ?t = ?t"
    using no(2) by (simp add: normalize_newlines_single_pass line_endings_to_lf_id)
  have r: "re_sub_empty OSC133_RE ?t = ?t"
    using no(3) by (rule re_sub_empty_needs [OF needs_OSC])
  have f: "filter keep_char ?t = ?t"
    using kp by (simp add: filter_id_conv)
  have "sanitize bs = ?t"
  proof (cases "bs = []")
    case True
    with bs(2) have "?t = []" by simp
    with True show ?thesis by (simp add: sanitize_def)
  next
    case False
    then have "sanitize bs = filter keep_char (re_sub_empty OSC133_RE (normalize_newlines (decoded bs)))"
      by (simp add: sanitize_def)
    then show ?thesis by (simp only: d n r f)
  qed
  with bs(1) show ?thesis by blast
qed

section \<open>Timeouts\<close>

lemma wait_loop_unfold:
  "wait_loop wait_max d clock wakes s n =
     (if \<not> no_marker s then Some (Inr (sanitize (buffer s)), s\<lparr>buffer := []\<rparr>, n)
      else if d \<le> clock (Suc n) then
        Some (Inl (PtyTimeoutError ''Timeout'' (py_slice_from (- 150) (sanitize (buffer s)))), s, n)
      else if \<not> is_alive s then Some (Inl (PtyError ''Subprocess died''), s, n)
      else if d - clock (Suc n) > wait_max then Some (Inl OverflowError, s, n)
      else (case wakes of
              [] \<Rightarrow> None
            | w # rest \<Rightarrow> wait_loop wait_max d clock rest (apply_wake w s) (Suc n)))"
  by (auto simp: no_marker_def Let_def PtyTimeoutError_init_def split: option.splits)

declare wait_loop.simps [simp del]

lemma state_after_0: "state_after wakes 0 s = s"
  by (simp add: state_after_def)

lemma state_after_Suc: "state_after (w # rest) (Suc k) s = state_after rest k (apply_wake w s)"
  by (simp add: state_after_def)

lemma state_after_Nil: "state_after [] k s = s"
  by (simp add: state_after_def)

lemma wtt_0:
  "waits_then_times_out wait_max d clock wakes s n0 0 \<longleftrightarrow> no_marker s \<and> d \<le> clock (Suc n0)"
  by (simp add: waits_then_times_out_def state_after_0)

lemma wtt_Nil_Suc: "\<not> waits_then_times_out wait_max d clock [] s n0 (Suc k)"
  by (simp add: waits_then_times_out_def)

lemma wtt_Cons_Suc:
  "waits_then_times_out wait_max d clock (w # rest) s n0 (Suc k) \<longleftrightarrow>
     no_marker s \<and> clock (Suc n0) < d \<and> is_alive s \<and> d - clock (Suc n0) \<le> wait_max
     \<and> waits_then_times_out wait_max d clock rest (apply_wake w s) (Suc n0) k"
proof -
  have a: "(\<forall>j<Suc k. P j) \<longleftrightarrow> P 0 \<and> (\<forall>j<k. P (Suc j))" for P
    by (metis less_Suc_eq_0_disj Suc_less_eq zero_less_Suc)
  show ?thesis
    unfolding waits_then_times_out_def a
    by (auto simp: state_after_0 state_after_Suc)
qed

lemma wait_loop_timeout_iff:
  "wait_loop wait_max d clock wakes s n0 = Some (Inl (PtyTimeoutError msg tail), s', n) \<longleftrightarrow>
     (\<exists>k. n = n0 + k \<and> waits_then_times_out wait_max d clock wakes s n0 k
          \<and> s' = state_after wakes k s \<and> msg = ''Timeout''
          \<and> tail = py_slice_from (- 150) (sanitize (buffer s')))"
proof (induction wakes arbitrary: s n0)
  case Nil
  have "(\<exists>k. P k) \<longleftrightarrow> P 0 \<or> (\<exists>k. P (Suc k))" for P
    by (metis not0_implies_Suc)
  then show ?case
    by (subst wait_loop_unfold) (auto simp: wtt_0 wtt_Nil_Suc state_after_0)
next
  case (Cons w rest)
  have e: "(\<exists>k. P k) \<longleftrightarrow> P 0 \<or> (\<exists>k. P (Suc k))" for P
    by (metis not0_implies_Suc)
  show ?case
    apply (subst wait_loop_unfold)
    apply (subst e)
    apply (simp add: wtt_0 wtt_Cons_Suc state_after_0 state_after_Suc Cons.IH)
    apply auto
    done
qed

lemma py_slice_from_last:
  "py_slice_from (- int k) xs = (if k = 0 then xs else drop (length xs - k) xs)"
  by (auto simp: py_slice_from_def Let_def max_def intro: arg_cong2 [of _ _ _ _ drop])

lemma buffer_reader_iteration: "prefix (buffer s) (buffer (reader_iteration r s))"
  by (cases r) (auto simp: reader_iteration_def Let_def)

lemma buffer_apply_event: "prefix (buffer s) (buffer (apply_event e s))"
  by (cases e) (auto simp: buffer_reader_iteration)

lemma buffer_apply_wake: "prefix (buffer s) (buffer (apply_wake w s))"
  unfolding apply_wake_def
proof (induction w arbitrary: s)
  case Nil
  then show ?case by simp
next
  case (Cons e w)
  have "prefix (buffer s) (buffer (apply_event e s))"
    by (rule buffer_apply_event)
  also have "prefix \<dots> (buffer (fold apply_event w (apply_event e s)))"
    by (rule Cons.IH)
  finally show ?case by simp
qed

lemma buffer_state_after: "prefix (buffer s) (buffer (state_after wakes k s))"
proof (induction wakes arbitrary: s k)
  case Nil
  then show ?case by (simp add: state_after_Nil)
next
  case (Cons w rest)
  show ?case
  proof (cases k)
    case 0
    then show ?thesis by (simp add: state_after_0)
  next
    case (Suc j)
    have "prefix (buffer s) (buffer (apply_wake w s))"
      by (rule buffer_apply_wake)
    also have "prefix \<dots> (buffer (state_after rest j (apply_wake w s)))"
      by (rule Cons.IH)
    finally show ?thesis by (simp add: Suc state_after_Suc)
  qed
qed

text \<open>
  C3.  When a call has its deadline, waits \<open>n\<close> times and then finds the deadline
  passed, having found no marker in any pass, it raises \<open>PtyTimeoutError\<close>.  The text
  the error carries is the last 150 characters of the sanitized buffer (all of it
  when it is shorter).  The session is the one the environment left: the call has
  consumed nothing, and the buffer it started with is still the beginning of the
  buffer.
\<close>

theorem read_until_ready_timeout:
  assumes "float_convertible timeout_ms"
    and "waits_then_times_out wait_max (clock 0 + real_of_int timeout_ms / 1000) clock wakes s 0 n"
  shows "\<exists>tail. read_until_ready wait_max timeout_ms clock wakes s
                  = Some (Inl (PtyTimeoutError ''Timeout'' tail), state_after wakes n s, n)
           \<and> tail = py_slice_from (- 150) (sanitize (buffer (state_after wakes n s)))
           \<and> suffix tail (sanitize (buffer (state_after wakes n s)))
           \<and> length tail = min 150 (length (sanitize (buffer (state_after wakes n s))))
           \<and> prefix (buffer s) (buffer (state_after wakes n s))"
proof -
  let ?s' = "state_after wakes n s"
  let ?tail = "py_slice_from (- 150) (sanitize (buffer ?s'))"
  have "wait_loop wait_max (clock 0 + real_of_int timeout_ms / 1000) clock wakes s 0
          = Some (Inl (PtyTimeoutError ''Timeout'' ?tail), ?s', n)"
    unfolding wait_loop_timeout_iff using assms(2) by simp
  with assms(1) have "read_until_ready wait_max timeout_ms clock wakes s
          = Some (Inl (PtyTimeoutError ''Timeout'' ?tail), ?s', n)"
    by (simp add: read_until_ready_def)
  moreover have t: "?tail = drop (length (sanitize (buffer ?s')) - 150) (sanitize (buffer ?s'))"
    using py_slice_from_last [of 150] by simp
  moreover have "suffix ?tail (sanitize (buffer ?s'))"
    unfolding t by (rule suffix_drop)
  moreover have "length ?tail = min 150 (length (sanitize (buffer ?s')))"
    unfolding t by simp
  moreover have "prefix (buffer s) (buffer ?s')"
    by (rule buffer_state_after)
  ultimately show ?thesis by blast
qed

lemmas full_eval = sanitize_eval matches.simps re_sub_empty.simps str_replace.simps
  utf8_decode_replace.simps

theorem read_until_ready_timeout_witness:
  "float_convertible 1500
   \<and> waits_then_times_out 9223372036 (steady_clock 1 0 + real_of_int 1500 / 1000)
       (steady_clock 1) [[Reader (Data [0x78])]]
       ((AGTerm_init 100 None 3)\<lparr>buffer := [0x68, 0x69]\<rparr>) 0 1
   \<and> read_until_ready 9223372036 1500 (steady_clock 1) [[Reader (Data [0x78])]]
        ((AGTerm_init 100 None 3)\<lparr>buffer := [0x68, 0x69]\<rparr>)
       = Some (Inl (PtyTimeoutError ''Timeout'' [0x68, 0x69, 0x78]),
               (AGTerm_init 100 None 3)\<lparr>buffer := [0x68, 0x69, 0x78], history := [0x78]\<rparr>, 1)"
proof -
  let ?s = "(AGTerm_init 100 None 3)\<lparr>buffer := [0x68, 0x69]\<rparr>"
  let ?w = "[[Reader (Data [0x78])]]"
  have s1: "state_after ?w 1 ?s
      = (AGTerm_init 100 None 3)\<lparr>buffer := [0x68, 0x69, 0x78], history := [0x78]\<rparr>"
    by (simp add: state_after_def apply_wake_def reader_iteration_def AGTerm_init_def Let_def)
  have t0: "sanitize [0x68, 0x69] = [0x68, 0x69]"
    and t1: "sanitize [0x68, 0x69, 0x78] = [0x68, 0x69, 0x78]"
    by (simp_all add: full_eval)
  have n0: "no_marker ?s"
    by (simp add: no_marker_def t0 AGTerm_init_def default_markers_def)
  have n1: "no_marker (state_after ?w 1 ?s)"
    unfolding s1 by (simp add: no_marker_def t1 AGTerm_init_def default_markers_def)
  have a0: "is_alive ?s"
    by (simp add: is_alive_def AGTerm_init_def)
  have f: "float_convertible 1500"
    by (simp add: float_convertible_def)
  have h: "waits_then_times_out 9223372036 (steady_clock 1 0 + real_of_int 1500 / 1000)
       (steady_clock 1) ?w ?s 0 1"
    using n0 n1 a0 by (simp add: waits_then_times_out_def state_after_0 steady_clock_def)
  from read_until_ready_timeout [OF f h] have
    "read_until_ready 9223372036 1500 (steady_clock 1) ?w ?s
       = Some (Inl (PtyTimeoutError ''Timeout''
                      (py_slice_from (- 150) (sanitize (buffer (state_after ?w 1 ?s))))),
               state_after ?w 1 ?s, 1)"
    by blast
  moreover have "py_slice_from (- 150) (sanitize (buffer (state_after ?w 1 ?s)))
      = [0x68, 0x69, 0x78]"
    unfolding s1 by (simp add: t1 py_slice_from_def)
  ultimately show ?thesis
    using f h s1 by simp
qed

text \<open>
  Every \<open>PtyTimeoutError\<close> of \<open>read_until_ready\<close> arises in this way, and a call whose
  \<open>timeout_ms\<close> cannot be converted raises \<open>OverflowError\<close> and nothing else.
\<close>

lemma read_until_ready_timeout_only_so:
  assumes "read_until_ready wait_max timeout_ms clock wakes s
             = Some (Inl (PtyTimeoutError msg tail), s', n)"
  shows "float_convertible timeout_ms
         \<and> waits_then_times_out wait_max (clock 0 + real_of_int timeout_ms / 1000) clock wakes s 0 n
         \<and> s' = state_after wakes n s \<and> msg = ''Timeout''
         \<and> tail = py_slice_from (- 150) (sanitize (buffer s'))"
proof -
  from assms have f: "float_convertible timeout_ms"
    by (auto simp: read_until_ready_def split: if_splits)
  with assms have "wait_loop wait_max (clock 0 + real_of_int timeout_ms / 1000) clock wakes s 0
      = Some (Inl (PtyTimeoutError msg tail), s', n)"
    by (simp add: read_until_ready_def)
  with f show ?thesis
    unfolding wait_loop_timeout_iff by simp
qed

lemma read_until_ready_overflow:
  "\<not> float_convertible timeout_ms \<Longrightarrow>
   read_until_ready wait_max timeout_ms clock wakes s = Some (Inl OverflowError, s, 0)"
  by (simp add: read_until_ready_def)

section \<open>History within a positive cap\<close>

text \<open>
  With a positive cap the trim of the reader loop does keep the history within the
  cap, and what it keeps is the end of the history with the chunk appended.
\<close>

lemma history_reader_iteration_positive:
  assumes "0 < max_history s" and "int (length (history s)) \<le> max_history s"
  shows "int (length (history (reader_iteration r s))) \<le> max_history s"
    and "max_history (reader_iteration r s) = max_history s"
  using assms
  by (cases r; auto simp: reader_iteration_def Let_def py_slice_from_def max_def)+

lemma history_reader_loop_positive:
  "0 < max_history s \<Longrightarrow> int (length (history s)) \<le> max_history s \<Longrightarrow>
   int (length (history (reader_loop rs s))) \<le> max_history s
   \<and> max_history (reader_loop rs s) = max_history s"
  unfolding reader_loop_def
proof (induction rs arbitrary: s)
  case Nil
  then show ?case by simp
next
  case (Cons r rs)
  let ?s = "reader_iteration r s"
  have m: "max_history ?s = max_history s"
    and "int (length (history ?s)) \<le> max_history s"
    using Cons.prems by (simp_all add: history_reader_iteration_positive)
  with Cons.prems(1) have "0 < max_history ?s" "int (length (history ?s)) \<le> max_history ?s"
    by simp_all
  from Cons.IH [OF this] show ?case
    by (simp add: m)
qed

lemma py_slice_from_suffix: "suffix (py_slice_from i xs) xs"
  unfolding py_slice_from_def Let_def by (rule suffix_drop)

lemma history_reader_iteration_suffix:
  assumes "running s" and "chunk \<noteq> []"
  shows "suffix (history (reader_iteration (Data chunk) s)) (history s @ chunk)"
proof (cases "int (length (history s @ chunk)) > max_history s")
  case True
  with assms have "history (reader_iteration (Data chunk) s)
      = py_slice_from (- max_history s) (history s @ chunk)"
    by (simp add: reader_iteration_def Let_def)
  then show ?thesis
    by (simp only: py_slice_from_suffix)
next
  case False
  with assms have "history (reader_iteration (Data chunk) s) = history s @ chunk"
    by (simp add: reader_iteration_def Let_def)
  then show ?thesis by simp
qed

end
